theory Spec2Isabelle
  imports Complex_Main "HOL-Library.Product_Lexorder" "HOL-Library.List_Lexorder"
begin

section \<open>Exceptions\<close>

text \<open>
  The matrix class reports failure by throwing standard exceptions.  An exception is a
  value: its class and the string given to its constructor.  \<open>Invalid_argument\<close> is
  derived from \<open>Logic_error\<close> and \<open>Range_error\<close> from \<open>Runtime_error\<close>, so a handler
  for the base class also receives the derived one.  A function that may throw returns
  \<open>exn + 'r\<close>, with \<open>Inl\<close> for the exception.
\<close>

datatype exn =
    Logic_error string
  | Invalid_argument string
  | Runtime_error string
  | Range_error string

fun what :: "exn \<Rightarrow> string" where
  "what (Logic_error s) = s"
| "what (Invalid_argument s) = s"
| "what (Runtime_error s) = s"
| "what (Range_error s) = s"

fun is_runtime_error :: "exn \<Rightarrow> bool" where
  "is_runtime_error (Runtime_error s) = True"
| "is_runtime_error (Range_error s) = True"
| "is_runtime_error e = False"

fun is_logic_error :: "exn \<Rightarrow> bool" where
  "is_logic_error (Logic_error s) = True"
| "is_logic_error (Invalid_argument s) = True"
| "is_logic_error e = False"

section \<open>Ring elements\<close>

text \<open>
  Modelled from the spec: the expression class \<open>ex\<close> (the RingElement collaborator) is
  not part of the matrix source.  A ring element is modelled by the value it denotes, an
  element of a field \<open>'a\<close>; the field operations are the arithmetic of \<open>ex\<close>.  The
  canonicalisations \<open>expand\<close>, \<open>normal\<close>, \<open>to_rational\<close> and the back substitution
  \<open>subs\<close> of the replacement list do not change the denoted value, and the zero test
  is exact.  \<open>divide_exact\<close> is the exact division \<open>divide\<close> of the fraction-free elimination.
\<close>

definition expand :: "'a \<Rightarrow> 'a" where
  "expand e = e"

definition normal :: "'a \<Rightarrow> 'a" where
  "normal e = e"

definition to_rational :: "'a \<Rightarrow> 'a" where
  "to_rational e = e"

definition subs :: "'a \<Rightarrow> 'a" where
  "subs e = e"

definition is_zero :: "'a::zero \<Rightarrow> bool" where
  "is_zero e \<longleftrightarrow> e = 0"

definition divide_exact :: "'a::field \<Rightarrow> 'a \<Rightarrow> 'a" where
  "divide_exact a b = a / b"

text \<open>
  Modelled from the spec: the capability queries of the collaborator that the matrix code
  calls (\<open>info\<close> flags, numerator and denominator of a normal form, the canonical
  ordering \<open>compare\<close>, the integer value of an integer number, and the supply of fresh
  symbols of the \<open>symbol\<close> constructor) are taken as parameters.
\<close>

record 'a ex_class =
  info_numeric :: "'a \<Rightarrow> bool"
  info_integer :: "'a \<Rightarrow> bool"
  info_negative :: "'a \<Rightarrow> bool"
  info_symbol :: "'a \<Rightarrow> bool"
  info_crational_polynomial :: "'a \<Rightarrow> bool"
  info_rational_function :: "'a \<Rightarrow> bool"
  to_int :: "'a \<Rightarrow> int"
  numer :: "'a \<Rightarrow> 'a"
  denom :: "'a \<Rightarrow> 'a"
  compare :: "'a \<Rightarrow> 'a \<Rightarrow> int"
  symbol :: "nat \<Rightarrow> 'a"

section \<open>The matrix store\<close>

text \<open>
  A matrix has \<open>row\<close> rows, \<open>col\<close> columns and the vector \<open>m\<close> of its entries in
  row-major order.  Dimensions and indices are \<open>unsigned\<close> in the source and natural
  numbers here; the theorems below are about matrices with at least one row and one
  column whose vector has \<open>row * col\<close> entries, and about indices inside the vector
  (an unchecked read beyond the vector is undefined in the source).
\<close>

record 'a matrix =
  row :: nat
  col :: nat
  m :: "'a list"

definition wf_matrix :: "'a matrix \<Rightarrow> bool" where
  "wf_matrix M \<longleftrightarrow> 0 < row M \<and> 0 < col M \<and> length (m M) = row M * col M"

text \<open>The constructor \<open>matrix(r, c)\<close>: the zero matrix.\<close>

definition matrix_zero :: "nat \<Rightarrow> nat \<Rightarrow> 'a::zero matrix" where
  "matrix_zero r c = \<lparr>row = r, col = c, m = replicate (r * c) 0\<rparr>"

text \<open>\<open>operator()\<close> for reading and for writing, with its range check.\<close>

definition elem :: "'a matrix \<Rightarrow> nat \<Rightarrow> nat \<Rightarrow> exn + 'a" where
  "elem M ro co =
     (if ro \<ge> row M \<or> co \<ge> col M
      then Inl (Range_error ''matrix::operator(): index out of range'')
      else Inr (m M ! (ro * col M + co)))"

definition set_elem :: "'a matrix \<Rightarrow> nat \<Rightarrow> nat \<Rightarrow> 'a \<Rightarrow> exn + 'a matrix" where
  "set_elem M ro co v =
     (if ro \<ge> row M \<or> co \<ge> col M
      then Inl (Range_error ''matrix::operator(): index out of range'')
      else Inr (M\<lparr>m := (m M)[ro * col M + co := v]\<rparr>))"

section \<open>Pivoting\<close>

text \<open>The symbolic search: the first row from \<open>k\<close> on whose expanded entry is not zero.\<close>

function pivot_symbolic_scan :: "'a::zero matrix \<Rightarrow> nat \<Rightarrow> nat \<Rightarrow> nat" where
  "pivot_symbolic_scan M co k =
     (if k < row M \<and> is_zero (expand (m M ! (k * col M + co)))
      then pivot_symbolic_scan M co (Suc k)
      else k)"
  by pat_completeness auto
termination
  by (relation "measure (\<lambda>(M, co, k). row M - k)") auto

declare pivot_symbolic_scan.simps [simp del]

text \<open>The numeric search loop over \<open>kmax\<close>, with its state \<open>(k, mmax, kmax)\<close>.\<close>

function pivot_numeric_scan ::
  "'a::{abs,ord} matrix \<Rightarrow> nat \<Rightarrow> nat \<Rightarrow> 'a \<Rightarrow> nat \<Rightarrow> nat \<times> 'a \<times> nat" where
  "pivot_numeric_scan M co k mmax kmax =
     (if kmax < row M
      then (let tmp = m M ! (kmax * col M + co)
            in if abs tmp > mmax
               then pivot_numeric_scan M co kmax tmp (Suc kmax)
               else pivot_numeric_scan M co k mmax (Suc kmax))
      else (k, mmax, kmax))"
  by pat_completeness auto
termination
  by (relation "measure (\<lambda>(M, co, k, mmax, kmax). row M - kmax)") auto

declare pivot_numeric_scan.simps [simp del]

definition swap_rows :: "'a matrix \<Rightarrow> nat \<Rightarrow> nat \<Rightarrow> 'a matrix" where
  "swap_rows M k ro =
     M\<lparr>m := fold (\<lambda>c xs. xs[k * col M + c := xs ! (ro * col M + c),
                              ro * col M + c := xs ! (k * col M + c)])
               [0..<col M] (m M)\<rparr>"

text \<open>
  \<open>pivot\<close> returns its \<open>int\<close> result and the receiver after the call: \<open>-1\<close> when the
  search ran off the end, \<open>0\<close> when no interchange occurred, otherwise the row \<open>k\<close> that
  was swapped with \<open>ro\<close>.
\<close>

definition pivot :: "'a::{zero,abs,ord} matrix \<Rightarrow> nat \<Rightarrow> nat \<Rightarrow> bool \<Rightarrow> int \<times> 'a matrix" where
  "pivot M ro co symbolic =
     (let k = (if symbolic
               then pivot_symbolic_scan M co ro
               else (let kmax = ro + 1;
                         mmax = abs (m M ! (kmax * col M + co));
                         (k, mmax, kmax) = pivot_numeric_scan M co ro mmax kmax
                     in if \<not> is_zero mmax then kmax else k))
      in if k = row M then (- 1, M)
         else if k = ro then (0, M)
         else (int k, swap_rows M k ro))"

section \<open>Loops that may throw\<close>

text \<open>
  A \<open>for\<close> loop whose body may throw: the state is threaded through the indices in
  order and the first exception ends the loop.
\<close>

fun for_each :: "nat list \<Rightarrow> 's \<Rightarrow> (nat \<Rightarrow> 's \<Rightarrow> exn + 's) \<Rightarrow> exn + 's" where
  "for_each [] s f = Inr s"
| "for_each (i # is) s f = (case f i s of Inl e \<Rightarrow> Inl e | Inr s' \<Rightarrow> for_each is s' f)"

section \<open>Arithmetic\<close>

definition mul :: "'a::field matrix \<Rightarrow> 'a matrix \<Rightarrow> exn + 'a matrix" where
  "mul A B =
     (if col A \<noteq> row B
      then Inl (Logic_error ''matrix::mul(): incompatible matrices'')
      else Inr \<lparr>row = row A, col = col B,
                m = fold (\<lambda>r1. fold (\<lambda>c prod.
                            if is_zero (m A ! (r1 * col A + c)) then prod
                            else fold (\<lambda>r2 prod.
                                   prod[r1 * col B + r2 :=
                                          prod ! (r1 * col B + r2)
                                          + expand (m A ! (r1 * col A + c) * m B ! (c * col B + r2))])
                                 [0..<col B] prod)
                          [0..<col A])
                      [0..<row A] (replicate (row A * col B) 0)\<rparr>)"

definition trace :: "'a::field ex_class \<Rightarrow> 'a matrix \<Rightarrow> exn + 'a" where
  "trace E M =
     (if row M \<noteq> col M
      then Inl (Logic_error ''matrix::trace(): matrix not square'')
      else (let tr = fold (\<lambda>r tr. tr + m M ! (r * col M + r)) [0..<col M] 0
            in if info_rational_function E tr \<and> \<not> info_crational_polynomial E tr
               then Inr (normal tr)
               else Inr (expand tr)))"

section \<open>Comparison\<close>

text \<open>
  The two nested loops of \<open>compare_same_type\<close> visit the index pairs in row-major
  order and return at the first pair whose entries differ.
\<close>

fun compare_elements ::
  "'a ex_class \<Rightarrow> 'a matrix \<Rightarrow> 'a matrix \<Rightarrow> (nat \<times> nat) list \<Rightarrow> exn + int" where
  "compare_elements E A B [] = Inr 0"
| "compare_elements E A B ((r, c) # rest) =
     (case elem A r c of
        Inl e \<Rightarrow> Inl e
      | Inr a \<Rightarrow>
          (case elem B r c of
             Inl e \<Rightarrow> Inl e
           | Inr b \<Rightarrow>
               (let cmpval = compare E a b
                in if cmpval \<noteq> 0 then Inr cmpval else compare_elements E A B rest)))"

definition compare_same_type :: "'a ex_class \<Rightarrow> 'a matrix \<Rightarrow> 'a matrix \<Rightarrow> exn + int" where
  "compare_same_type E A B =
     (if row A \<noteq> row B then Inr (if row A < row B then - 1 else 1)
      else if col A \<noteq> col B then Inr (if col A < col B then - 1 else 1)
      else compare_elements E A B (List.product [0..<row A] [0..<col A]))"

section \<open>Elimination\<close>

text \<open>
  The loop bounds \<open>n - 1\<close> and \<open>m - 1\<close> of the three eliminations are computed in
  \<open>unsigned\<close> arithmetic: for a dimension zero the difference wraps around to the
  largest \<open>unsigned\<close> number.
\<close>

definition unsigned_pred :: "nat \<Rightarrow> nat" where
  "unsigned_pred n = (if n = 0 then 4294967295 else n - 1)"

subsection \<open>Gauss elimination\<close>

text \<open>One row \<open>r2\<close> below the pivot row \<open>r0\<close>, pivot column \<open>r1\<close>.\<close>

definition gauss_row :: "'a::field ex_class \<Rightarrow> nat \<Rightarrow> nat \<Rightarrow> nat \<Rightarrow> nat \<Rightarrow> 'a list \<Rightarrow> 'a list" where
  "gauss_row E n r0 r1 r2 xs =
     (let xs1 = (if \<not> is_zero (xs ! (r2 * n + r1))
                 then (let piv = xs ! (r2 * n + r1) / xs ! (r0 * n + r1)
                       in fold (\<lambda>c ys.
                                  (let v = ys ! (r2 * n + c) - piv * ys ! (r0 * n + c)
                                   in ys[r2 * n + c := (if \<not> info_numeric E v then normal v else v)]))
                               [r1 + 1..<n] xs)
                 else xs)
      in fold (\<lambda>c ys. ys[r2 * n + c := 0]) [0..<r1 + 1] xs1)"

function gauss_loop ::
  "'a::{field,abs,ord} ex_class \<Rightarrow> bool \<Rightarrow> nat \<Rightarrow> nat \<Rightarrow> nat \<Rightarrow> nat \<Rightarrow> int \<Rightarrow> 'a matrix
     \<Rightarrow> int \<times> 'a matrix" where
  "gauss_loop E det mm n r0 r1 sign M =
     (if r1 < unsigned_pred n \<and> r0 < unsigned_pred mm
      then (let (indx, M1) = pivot M r0 r1 True;
                sign1 = (if indx = - 1 then 0 else sign)
            in if indx = - 1 \<and> det then (0, M1)
               else if indx \<ge> 0
               then (let sign2 = (if indx > 0 then - sign1 else sign1);
                         xs2 = fold (gauss_row E n r0 r1) [r0 + 1..<mm] (m M1);
                         xs3 = (if det then fold (\<lambda>c ys. ys[r0 * n + c := 0]) [r0 + 1..<n] xs2
                                else xs2)
                     in gauss_loop E det mm n (Suc r0) (Suc r1) sign2 (M1\<lparr>m := xs3\<rparr>))
               else gauss_loop E det mm n r0 (Suc r1) sign1 M1)
      else (sign, M))"
  by pat_completeness auto
termination
  by (relation "measure (\<lambda>(E, det, mm, n, r0, r1, sign, M). unsigned_pred n - r1)") auto

declare gauss_loop.simps [simp del]

text \<open>The \<open>int\<close> result (the sign) and the receiver after the call.\<close>

definition gauss_elimination ::
  "'a::{field,abs,ord} ex_class \<Rightarrow> 'a matrix \<Rightarrow> bool \<Rightarrow> int \<times> 'a matrix" where
  "gauss_elimination E M det = gauss_loop E det (row M) (col M) 0 0 1 M"

subsection \<open>Division-free elimination\<close>

definition divfree_row :: "nat \<Rightarrow> nat \<Rightarrow> nat \<Rightarrow> nat \<Rightarrow> 'a::field list \<Rightarrow> 'a list" where
  "divfree_row n r0 r1 r2 xs =
     (let xs1 = fold (\<lambda>c ys.
                        ys[r2 * n + c :=
                             expand (ys ! (r0 * n + r1) * ys ! (r2 * n + c)
                                     - ys ! (r2 * n + r1) * ys ! (r0 * n + c))])
                     [r1 + 1..<n] xs
      in fold (\<lambda>c ys. ys[r2 * n + c := 0]) [0..<r1 + 1] xs1)"

function divfree_loop ::
  "bool \<Rightarrow> nat \<Rightarrow> nat \<Rightarrow> nat \<Rightarrow> nat \<Rightarrow> int \<Rightarrow> 'a::{field,abs,ord} matrix \<Rightarrow> int \<times> 'a matrix" where
  "divfree_loop det mm n r0 r1 sign M =
     (if r1 < unsigned_pred n \<and> r0 < unsigned_pred mm
      then (let (indx, M1) = pivot M r0 r1 True;
                sign1 = (if indx = - 1 then 0 else sign)
            in if indx = - 1 \<and> det then (0, M1)
               else if indx \<ge> 0
               then (let sign2 = (if indx > 0 then - sign1 else sign1);
                         xs2 = fold (divfree_row n r0 r1) [r0 + 1..<mm] (m M1);
                         xs3 = (if det then fold (\<lambda>c ys. ys[r0 * n + c := 0]) [r0 + 1..<n] xs2
                                else xs2)
                     in divfree_loop det mm n (Suc r0) (Suc r1) sign2 (M1\<lparr>m := xs3\<rparr>))
               else divfree_loop det mm n r0 (Suc r1) sign1 M1)
      else (sign, M))"
  by pat_completeness auto
termination
  by (relation "measure (\<lambda>(det, mm, n, r0, r1, sign, M). unsigned_pred n - r1)") auto

declare divfree_loop.simps [simp del]

definition division_free_elimination ::
  "'a::{field,abs,ord} matrix \<Rightarrow> bool \<Rightarrow> int \<times> 'a matrix" where
  "division_free_elimination M det = divfree_loop det (row M) (col M) 0 0 1 M"

subsection \<open>Fraction-free elimination\<close>

text \<open>
  The numerators \<open>ns\<close> and the denominators \<open>ds\<close> are kept in two vectors.  One row
  \<open>r2\<close> below the pivot row: every entry right of the pivot column gets the cross
  product, divided by the previous pivot.
\<close>

definition fraction_free_row ::
  "nat \<Rightarrow> nat \<Rightarrow> nat \<Rightarrow> 'a::field \<Rightarrow> 'a \<Rightarrow> nat \<Rightarrow> 'a list \<times> 'a list \<Rightarrow> 'a list \<times> 'a list" where
  "fraction_free_row n r0 r1 divisor_n divisor_d r2 nd =
     (let (ns1, ds1) =
            fold (\<lambda>c (ns, ds).
                    (let dividend_n = expand (ns ! (r0 * n + r1) * ns ! (r2 * n + c)
                                              * ds ! (r2 * n + r1) * ds ! (r0 * n + c)
                                              - ns ! (r2 * n + r1) * ns ! (r0 * n + c)
                                                * ds ! (r0 * n + r1) * ds ! (r2 * n + c));
                         dividend_d = expand (ds ! (r2 * n + r1) * ds ! (r0 * n + c)
                                              * ds ! (r0 * n + r1) * ds ! (r2 * n + c))
                     in (ns[r2 * n + c := divide_exact dividend_n divisor_n],
                         ds[r2 * n + c := divide_exact dividend_d divisor_d])))
                 [r1 + 1..<n] nd
      in (fold (\<lambda>c ys. ys[r2 * n + c := 0]) [0..<r1 + 1] ns1, ds1))"

text \<open>
  The loop returns \<open>None\<close> for the early \<open>return 0\<close> of the determinant mode, which
  leaves the receiver as it was, and otherwise the sign with both vectors.
\<close>

function fraction_free_loop ::
  "bool \<Rightarrow> nat \<Rightarrow> nat \<Rightarrow> nat \<Rightarrow> nat \<Rightarrow> int \<Rightarrow> 'a::{field,abs,ord} \<Rightarrow> 'a \<Rightarrow> 'a matrix \<Rightarrow> 'a list
     \<Rightarrow> (int \<times> 'a list \<times> 'a list) option" where
  "fraction_free_loop det mm n r0 r1 sign divisor_n divisor_d tmp_n ds =
     (if r1 < unsigned_pred n \<and> r0 < unsigned_pred mm
      then (let (indx, tmp_n1) = pivot tmp_n r0 r1 True;
                sign1 = (if indx = - 1 then 0 else sign)
            in if indx = - 1 \<and> det then None
               else if indx \<ge> 0
               then (let sign2 = (if indx > 0 then - sign1 else sign1);
                         ds1 = (if indx > 0
                                then fold (\<lambda>c ys. ys[n * nat indx + c := ys ! (n * r0 + c),
                                                       n * r0 + c := ys ! (n * nat indx + c)])
                                          [r1..<n] ds
                                else ds);
                         (ns2, ds2) = fold (fraction_free_row n r0 r1 divisor_n divisor_d)
                                           [r0 + 1..<mm] (m tmp_n1, ds1);
                         again = (r1 < unsigned_pred n \<and> r0 < unsigned_pred mm);
                         divisor_n1 = (if again then expand (ns2 ! (r0 * n + r1)) else divisor_n);
                         divisor_d1 = (if again then expand (ds2 ! (r0 * n + r1)) else divisor_d);
                         (ns3, ds3) = (if again \<and> det
                                       then fold (\<lambda>c (ns, ds). (ns[r0 * n + c := 0], ds[r0 * n + c := 1]))
                                                 [0..<n] (ns2, ds2)
                                       else (ns2, ds2))
                     in fraction_free_loop det mm n (Suc r0) (Suc r1) sign2 divisor_n1 divisor_d1
                          (tmp_n1\<lparr>m := ns3\<rparr>) ds3)
               else fraction_free_loop det mm n r0 (Suc r1) sign1 divisor_n divisor_d tmp_n1 ds)
      else Some (sign, m tmp_n, ds))"
  by pat_completeness auto
termination
  by (relation "measure (\<lambda>(det, mm, n, r0, r1, sign, dn, dd, M, ds). unsigned_pred n - r1)") auto

declare fraction_free_loop.simps [simp del]

definition fraction_free_elimination ::
  "'a::{field,abs,ord} ex_class \<Rightarrow> 'a matrix \<Rightarrow> bool \<Rightarrow> int \<times> 'a matrix" where
  "fraction_free_elimination E M det =
     (if row M = 1 then (1, M)
      else (let rs = map (\<lambda>e. to_rational (normal e)) (m M);
                tmp_d = map (denom E) rs;
                tmp_n = M\<lparr>m := map (numer E) rs\<rparr>
            in case fraction_free_loop det (row M) (col M) 0 0 1 1 1 tmp_n tmp_d of
                 None \<Rightarrow> (0, M)
               | Some (sign, ns, ds) \<Rightarrow>
                   (sign, M\<lparr>m := map (\<lambda>(x, y). subs (x / y)) (zip ns ds)\<rparr>)))"

section \<open>Minor expansion\<close>

text \<open>
  The maps \<open>A\<close> and \<open>B\<close> from row keys to minors.  Reading \<open>A[Mkey]\<close> yields the
  default expression, zero, for a key that is not stored; \<open>insert\<close> keeps an entry
  that is already there.
\<close>

definition minor_lookup :: "(nat list \<rightharpoonup> 'a::zero) \<Rightarrow> nat list \<Rightarrow> 'a" where
  "minor_lookup A key = (case A key of None \<Rightarrow> 0 | Some v \<Rightarrow> v)"

definition minor_insert :: "(nat list \<rightharpoonup> 'a) \<Rightarrow> nat list \<Rightarrow> 'a \<Rightarrow> (nat list \<rightharpoonup> 'a)" where
  "minor_insert A key v = (case A key of None \<Rightarrow> A(key \<mapsto> v) | Some w \<Rightarrow> A)"

text \<open>The sum over the rows \<open>r\<close> of the key \<open>Pkey\<close> at column \<open>c\<close>.\<close>

definition minor_sum ::
  "'a::field list \<Rightarrow> nat \<Rightarrow> nat \<Rightarrow> (nat list \<rightharpoonup> 'a) \<Rightarrow> nat list \<Rightarrow> 'a" where
  "minor_sum xs n c A Pkey =
     fold (\<lambda>r det.
             if is_zero (xs ! (Pkey ! r * n + c)) then det
             else (let Mkey = map (\<lambda>i. Pkey ! i) (filter (\<lambda>i. i \<noteq> r) [0..<n - c])
                   in if r mod 2 \<noteq> 0
                      then det - xs ! (Pkey ! r * n + c) * minor_lookup A Mkey
                      else det + xs ! (Pkey ! r * n + c) * minor_lookup A Mkey))
          [0..<n - c] 0"

text \<open>
  The flipper counter: the \<open>for\<close> loop over \<open>fc\<close> that increments from the right until
  a position stays below its bound, then the reset of the positions right of it.
\<close>

fun flipper_inc :: "nat \<Rightarrow> nat \<Rightarrow> nat list \<Rightarrow> nat \<times> nat list" where
  "flipper_inc c 0 Pkey = (0, Pkey)"
| "flipper_inc c (Suc f) Pkey =
     (let Pkey1 = Pkey[f := Pkey ! f + 1]
      in if Pkey1 ! f < Suc f + c then (Suc f, Pkey1) else flipper_inc c f Pkey1)"

definition flipper :: "nat \<Rightarrow> nat \<Rightarrow> nat list \<Rightarrow> nat \<times> nat list" where
  "flipper n c Pkey =
     (let (fc, Pkey1) = flipper_inc c (n - c) Pkey
      in (fc, if fc < n - c \<and> fc > 0
              then fold (\<lambda>j P. P[j := P ! (j - 1) + 1]) [fc..<n - c] Pkey1
              else Pkey1))"

text \<open>The \<open>do ... while (fc)\<close> loop over the keys of one column.\<close>

partial_function (option) minor_keys ::
  "'a::field list \<Rightarrow> nat \<Rightarrow> nat \<Rightarrow> (nat list \<rightharpoonup> 'a) \<Rightarrow> (nat list \<rightharpoonup> 'a) \<Rightarrow> nat list
     \<Rightarrow> ('a \<times> (nat list \<rightharpoonup> 'a)) option" where
  "minor_keys xs n c A B Pkey =
     (let det = expand (minor_sum xs n c A Pkey);
          B1 = (if \<not> is_zero det then minor_insert B Pkey det else B);
          fl = flipper n c Pkey
      in if fst fl \<noteq> 0 then minor_keys xs n c A B1 (snd fl) else Some (det, B1))"

declare minor_keys.simps [code]

text \<open>The loop over the columns \<open>c = n - 2, ..., 0\<close>; the counter is \<open>c + 1\<close>.\<close>

fun minor_columns ::
  "'a::field list \<Rightarrow> nat \<Rightarrow> nat \<Rightarrow> (nat list \<rightharpoonup> 'a) \<Rightarrow> 'a \<Rightarrow> 'a option" where
  "minor_columns xs n 0 A det = Some det"
| "minor_columns xs n (Suc c) A det =
     (case minor_keys xs n c A Map.empty [0..<n - c] of
        None \<Rightarrow> None
      | Some (det1, B) \<Rightarrow> minor_columns xs n c B det1)"

definition determinant_minor :: "'a::field matrix \<Rightarrow> 'a option" where
  "determinant_minor M =
     (let n = col M; xs = m M
      in if n = 1 then Some (expand (xs ! 0))
         else if n = 2 then Some (expand (xs ! 0 * xs ! 3 - xs ! 2 * xs ! 1))
         else if n = 3
         then Some (expand (xs ! 0 * xs ! 4 * xs ! 8 - xs ! 0 * xs ! 5 * xs ! 7
                            - xs ! 1 * xs ! 3 * xs ! 8 + xs ! 2 * xs ! 3 * xs ! 7
                            + xs ! 1 * xs ! 5 * xs ! 6 - xs ! 2 * xs ! 4 * xs ! 6))
         else minor_columns xs n (n - 1)
                (fold (\<lambda>r A. minor_insert A [r] (xs ! (n * (r + 1) - 1))) [0..<n] Map.empty) 0)"

section \<open>Determinant\<close>

datatype determinant_algo = Automatic | Gauss | Divfree | Laplace | Bareiss

text \<open>
  Modelled from the spec: \<open>permutation_sign\<close> is declared outside the matrix source; it
  is the sign of the permutation, by its inversion count, and zero when two elements are
  equal.
\<close>

fun inversions :: "nat list \<Rightarrow> nat" where
  "inversions [] = 0"
| "inversions (x # xs) = length (filter (\<lambda>y. y < x) xs) + inversions xs"

definition permutation_sign :: "nat list \<Rightarrow> int" where
  "permutation_sign xs = (if distinct xs then (- 1) ^ inversions xs else 0)"

text \<open>The statistics: \<open>(numeric_flag, normal_flag, sparse_count)\<close>.\<close>

definition determinant_stats :: "'a::zero ex_class \<Rightarrow> 'a matrix \<Rightarrow> bool \<times> bool \<times> nat" where
  "determinant_stats E M =
     fold (\<lambda>r (numeric_flag, normal_flag, sparse_count).
             (let rtest = to_rational r
              in (numeric_flag \<and> info_numeric E rtest,
                  normal_flag \<or> (\<not> info_crational_polynomial E rtest \<and> info_rational_function E rtest),
                  if \<not> is_zero rtest then sparse_count + 1 else sparse_count)))
          (m M) (True, False, 0)"

definition determinant_choice :: "determinant_algo \<Rightarrow> nat \<Rightarrow> nat \<Rightarrow> bool \<Rightarrow> nat \<Rightarrow> determinant_algo" where
  "determinant_choice algo r c numeric_flag sparse_count =
     (if algo = Automatic
      then (let algo1 = Laplace;
                algo2 = (if r > 3 \<and> 5 * sparse_count \<le> r * c then Bareiss else algo1)
            in if numeric_flag then Gauss else algo2)
      else algo)"

text \<open>The column presort of the minor expansion: the permutation and the sorted matrix.\<close>

definition laplace_pre_sort :: "'a::zero matrix \<Rightarrow> nat list" where
  "laplace_pre_sort M =
     map snd (sort (map (\<lambda>c. (length (filter (\<lambda>r. is_zero (m M ! (r * col M + c))) [0..<row M]), c))
                        [0..<col M]))"

definition laplace_sorted :: "'a::zero matrix \<Rightarrow> nat list \<Rightarrow> 'a matrix" where
  "laplace_sorted M pre_sort =
     \<lparr>row = row M, col = col M,
      m = fold (\<lambda>c. fold (\<lambda>r result. result[r * col M + c := m M ! (r * col M + pre_sort ! c)])
                         [0..<row M])
               [0..<length pre_sort] (replicate (row M * col M) 0)\<rparr>"

definition determinant ::
  "'a::{field,abs,ord} ex_class \<Rightarrow> 'a matrix \<Rightarrow> determinant_algo \<Rightarrow> (exn + 'a) option" where
  "determinant E M algo0 =
     (if row M \<noteq> col M
      then Some (Inl (Logic_error ''matrix::determinant(): matrix not square''))
      else (let (numeric_flag, normal_flag, sparse_count) = determinant_stats E M;
                algo = determinant_choice algo0 (row M) (col M) numeric_flag sparse_count
            in if row M = 1
               then (if normal_flag then Some (Inr (normal (m M ! 0)))
                     else Some (Inr (expand (m M ! 0))))
               else (case algo of
                       Gauss \<Rightarrow>
                         (let (sign, tmp) = gauss_elimination E M True;
                              det = fold (\<lambda>d det. det * m tmp ! (d * col M + d)) [0..<row M] 1
                          in if normal_flag then Some (Inr (normal (of_int sign * det)))
                             else Some (Inr (expand (normal (of_int sign * det)))))
                     | Bareiss \<Rightarrow>
                         (let (sign, tmp) = fraction_free_elimination E M True
                          in if normal_flag
                             then Some (Inr (normal (of_int sign * m tmp ! (row M * col M - 1))))
                             else Some (Inr (expand (of_int sign * m tmp ! (row M * col M - 1)))))
                     | Divfree \<Rightarrow>
                         (let (sign, tmp) = division_free_elimination M True
                          in if sign = 0 then Some (Inr 0)
                             else (let det = fold (\<lambda>d. fold (\<lambda>j det. normal (det / m tmp ! (d * col M + d)))
                                                           [0..<row M - d - 2])
                                                  [0..<row M - 2] (m tmp ! (row M * col M - 1))
                                   in Some (Inr (of_int sign * det))))
                     | _ \<Rightarrow>
                         (let pre_sort = laplace_pre_sort M;
                              sign = permutation_sign pre_sort
                          in case determinant_minor (laplace_sorted M pre_sort) of
                               None \<Rightarrow> None
                             | Some d \<Rightarrow>
                                 if normal_flag then Some (Inr (normal (of_int sign * d)))
                                 else Some (Inr (of_int sign * d))))))"

section \<open>Linear systems\<close>

datatype solve_algo = Solve_automatic | Solve_gauss | Solve_divfree | Solve_bareiss

definition solve_check_vars :: "'a ex_class \<Rightarrow> 'a matrix \<Rightarrow> nat \<Rightarrow> nat \<Rightarrow> exn + unit" where
  "solve_check_vars E vars n p =
     for_each [0..<n] () (\<lambda>ro u.
       for_each [0..<p] () (\<lambda>co u.
         (case elem vars ro co of
            Inl e \<Rightarrow> Inl e
          | Inr v \<Rightarrow>
              if \<not> info_symbol E v
              then Inl (Invalid_argument ''matrix::solve(): 1st argument must be matrix of symbols'')
              else Inr ())))"

text \<open>The augmented matrix: the receiver with the right hand side attached.\<close>

definition solve_augmented :: "'a::zero matrix \<Rightarrow> 'a matrix \<Rightarrow> 'a matrix" where
  "solve_augmented A rhs =
     (let mm = row A; n = col A; p = col rhs
      in \<lparr>row = mm, col = n + p,
          m = fold (\<lambda>r xs.
                      fold (\<lambda>c ys. ys[r * (n + p) + c + n := m rhs ! (r * p + c)]) [0..<p]
                        (fold (\<lambda>c ys. ys[r * (n + p) + c := m A ! (r * n + c)]) [0..<n] xs))
                   [0..<mm] (replicate (mm * (n + p)) 0)\<rparr>)"

definition solve_choice :: "'a ex_class \<Rightarrow> solve_algo \<Rightarrow> 'a matrix \<Rightarrow> solve_algo" where
  "solve_choice E algo aug =
     (if algo = Solve_automatic
      then (let numeric_flag = fold (\<lambda>r flag. flag \<and> info_numeric E r) (m aug) True;
                algo1 = Solve_bareiss;
                algo2 = (if row aug < 3 then Solve_divfree else algo1)
            in if numeric_flag then Solve_gauss else algo2)
      else algo)"

text \<open>The augmented matrix after the elimination chosen for the call.\<close>

definition solve_eliminated ::
  "'a::{field,abs,ord} ex_class \<Rightarrow> 'a matrix \<Rightarrow> 'a matrix \<Rightarrow> solve_algo \<Rightarrow> 'a matrix" where
  "solve_eliminated E A rhs algo0 =
     (let aug = solve_augmented A rhs
      in case solve_choice E algo0 aug of
           Solve_gauss \<Rightarrow> snd (gauss_elimination E aug False)
         | Solve_divfree \<Rightarrow> snd (division_free_elimination aug False)
         | _ \<Rightarrow> snd (fraction_free_elimination E aug False))"

text \<open>The search for the first entry of row \<open>r\<close> that is not zero, counted from one.\<close>

function solve_fnz :: "'a::zero list \<Rightarrow> nat \<Rightarrow> nat \<Rightarrow> nat \<Rightarrow> nat \<Rightarrow> nat" where
  "solve_fnz aug n p r fnz =
     (if fnz \<le> n \<and> is_zero (aug ! (r * (n + p) + (fnz - 1)))
      then solve_fnz aug n p r (Suc fnz)
      else fnz)"
  by pat_completeness auto
termination
  by (relation "measure (\<lambda>(aug, n, p, r, fnz). Suc n - fnz)") auto

declare solve_fnz.simps [simp del]

text \<open>
  One row of the back substitution for the right hand side column \<open>co\<close>; the state is
  the solution matrix and \<open>last_assigned_sol\<close>.
\<close>

definition solve_row ::
  "'a::field list \<Rightarrow> 'a matrix \<Rightarrow> nat \<Rightarrow> nat \<Rightarrow> nat \<Rightarrow> nat \<Rightarrow> 'a matrix \<times> nat
     \<Rightarrow> exn + 'a matrix \<times> nat" where
  "solve_row aug vars n p co r st =
     (let (sol, last_assigned_sol) = st;
          fnz = solve_fnz aug n p r 1
      in if fnz > n
         then (if \<not> is_zero (aug ! (r * (n + p) + n + co))
               then Inl (Runtime_error ''matrix::solve(): inconsistent linear system'')
               else Inr (sol, last_assigned_sol))
         else (case for_each [fnz..<last_assigned_sol - 1] sol
                      (\<lambda>c sol. set_elem sol c co (m vars ! (c * p + co))) of
                 Inl e \<Rightarrow> Inl e
               | Inr sol1 \<Rightarrow>
                   (let e = fold (\<lambda>c e. e - aug ! (r * (n + p) + c) * m sol1 ! (c * p + co))
                                 [fnz..<n] (aug ! (r * (n + p) + n + co))
                    in case set_elem sol1 (fnz - 1) co
                              (normal (e / aug ! (r * (n + p) + (fnz - 1)))) of
                         Inl e \<Rightarrow> Inl e
                       | Inr sol2 \<Rightarrow> Inr (sol2, fnz))))"

definition solve_column ::
  "'a::field list \<Rightarrow> 'a matrix \<Rightarrow> nat \<Rightarrow> nat \<Rightarrow> nat \<Rightarrow> nat \<Rightarrow> 'a matrix \<Rightarrow> exn + 'a matrix" where
  "solve_column aug vars mm n p co sol =
     (case for_each (rev [0..<mm]) (sol, n + 1) (solve_row aug vars n p co) of
        Inl e \<Rightarrow> Inl e
      | Inr (sol1, last_assigned_sol) \<Rightarrow>
          for_each [0..<last_assigned_sol - 1] sol1
            (\<lambda>ro sol. case elem vars ro co of
                         Inl e \<Rightarrow> Inl e
                       | Inr v \<Rightarrow> set_elem sol ro co v))"

definition solve ::
  "'a::{field,abs,ord} ex_class \<Rightarrow> 'a matrix \<Rightarrow> 'a matrix \<Rightarrow> 'a matrix \<Rightarrow> solve_algo
     \<Rightarrow> exn + 'a matrix" where
  "solve E A vars rhs algo =
     (let mm = row A; n = col A; p = col rhs
      in if row rhs \<noteq> mm \<or> row vars \<noteq> n \<or> col vars \<noteq> p
         then Inl (Logic_error ''matrix::solve(): incompatible matrices'')
         else (case solve_check_vars E vars n p of
                 Inl e \<Rightarrow> Inl e
               | Inr u \<Rightarrow>
                   for_each [0..<p] (matrix_zero n p)
                     (solve_column (m (solve_eliminated E A rhs algo)) vars mm n p)))"

section \<open>Inverse and power\<close>

text \<open>
  The identity matrix that becomes the right hand side, and the matrix of fresh symbols:
  the symbol created for position \<open>(r, c)\<close> is the \<open>r * col + c\<close>-th of the supply.
\<close>

definition inverse_identity :: "'a::{zero,one} matrix \<Rightarrow> exn + 'a matrix" where
  "inverse_identity M =
     for_each [0..<row M] (matrix_zero (row M) (col M)) (\<lambda>i identity. set_elem identity i i 1)"

definition inverse_vars :: "'a::zero ex_class \<Rightarrow> 'a matrix \<Rightarrow> exn + 'a matrix" where
  "inverse_vars E M =
     for_each [0..<row M] (matrix_zero (row M) (col M))
       (\<lambda>r vars. for_each [0..<col M] vars
                    (\<lambda>c vars. set_elem vars r c (symbol E (r * col M + c))))"

text \<open>
  The \<open>try\<close> block of \<open>inverse\<close> around the call of \<open>solve\<close>, as a function of
  the outcome of that call: the handler receives every exception of class
  \<open>runtime_error\<close> and compares its message; it throws "singular matrix" for the
  message of the inconsistent system and rethrows the exception otherwise.  An exception
  of another class is not caught, and a solution is assigned to \<open>sol\<close>.
\<close>

definition inverse_try :: "exn + 'a matrix \<Rightarrow> exn + 'a matrix" where
  "inverse_try outcome =
     (case outcome of
        Inl e \<Rightarrow>
          if is_runtime_error e
          then (if what e = ''matrix::solve(): inconsistent linear system''
                then Inl (Runtime_error ''matrix::inverse(): singular matrix'')
                else Inl e)
          else Inl e
      | Inr sol \<Rightarrow> Inr sol)"

definition inverse_matrix :: "'a::{field,abs,ord} ex_class \<Rightarrow> 'a matrix \<Rightarrow> exn + 'a matrix" where
  "inverse_matrix E M =
     (if row M \<noteq> col M
      then Inl (Logic_error ''matrix::inverse(): matrix not square'')
      else (case inverse_identity M of
              Inl e \<Rightarrow> Inl e
            | Inr identity \<Rightarrow>
                (case inverse_vars E M of
                   Inl e \<Rightarrow> Inl e
                 | Inr vars \<Rightarrow> inverse_try (solve E M vars identity Solve_automatic))))"

text \<open>
  The loop of \<open>pow\<close> over the binary digits of \<open>k\<close>; \<open>b\<close> and \<open>k\<close> are numbers of
  arbitrary size.
\<close>

partial_function (option) pow_loop ::
  "int \<Rightarrow> int \<Rightarrow> 'a::field matrix \<Rightarrow> 'a matrix \<Rightarrow> (exn + 'a matrix) option" where
  "pow_loop b k result prd =
     (if b \<le> k
      then (let b1 = b * 2;
                r = k mod b1
            in case (if r \<noteq> 0 then mul result prd else Inr result) of
                 Inl e \<Rightarrow> Some (Inl e)
               | Inr result1 \<Rightarrow>
                   (let k1 = (if r \<noteq> 0 then k - r else k)
                    in case (if b1 \<le> k1 then mul prd prd else Inr prd) of
                         Inl e \<Rightarrow> Some (Inl e)
                       | Inr prd1 \<Rightarrow> pow_loop b1 k1 result1 prd1))
      else Some (Inr result))"

declare pow_loop.simps [code]

definition pow :: "'a::{field,abs,ord} ex_class \<Rightarrow> 'a matrix \<Rightarrow> 'a \<Rightarrow> (exn + 'a matrix) option" where
  "pow E M expn =
     (if col M \<noteq> row M
      then Some (Inl (Logic_error ''matrix::pow(): matrix not square''))
      else if info_numeric E expn \<and> info_integer E expn
      then (case (if info_negative E expn
                  then (case inverse_matrix E M of
                          Inl e \<Rightarrow> Inl e
                        | Inr prd \<Rightarrow> Inr (- to_int E expn, prd))
                  else Inr (to_int E expn, M)) of
              Inl e \<Rightarrow> Some (Inl e)
            | Inr (k, prd) \<Rightarrow>
                (case for_each [0..<row M] (matrix_zero (row M) (col M))
                        (\<lambda>r result. set_elem result r r 1) of
                   Inl e \<Rightarrow> Some (Inl e)
                 | Inr result \<Rightarrow> pow_loop 1 k result prd))
      else Some (Inl (Runtime_error ''matrix::pow(): don't know how to handle exponent'')))"

section \<open>Identity and binary exponentiation\<close>

text \<open>The identity matrix of dimension \<open>n\<close>: one where row and column agree.\<close>

definition identity_matrix :: "nat \<Rightarrow> 'a::{zero,one} matrix" where
  "identity_matrix n =
     \<lparr>row = n, col = n, m = map (\<lambda>i. if i div n = i mod n then 1 else 0) [0..<n * n]\<rparr>"

text \<open>
  Binary exponentiation as the spec words it, for comparison with the loop of \<open>pow\<close>:
  the binary digits of \<open>k\<close> are read from the lowest one, the accumulator is
  multiplied by the base for every digit that is one, and the base is squared while
  digits remain.
\<close>

function binary_exponentiation ::
  "nat \<Rightarrow> 'a::field matrix \<Rightarrow> 'a matrix \<Rightarrow> exn + 'a matrix" where
  "binary_exponentiation k acc base =
     (if k = 0 then Inr acc
      else (case (if odd k then mul acc base else Inr acc) of
              Inl e \<Rightarrow> Inl e
            | Inr acc1 \<Rightarrow>
                if k div 2 = 0 then Inr acc1
                else (case mul base base of
                        Inl e \<Rightarrow> Inl e
                      | Inr base1 \<Rightarrow> binary_exponentiation (k div 2) acc1 base1)))"
  by pat_completeness auto
termination
  by (relation "measure (\<lambda>(k, acc, base). k)") auto

declare binary_exponentiation.simps [simp del]

section \<open>Objects and working copies\<close>

text \<open>
  To follow which object an operation modifies, the matrix objects alive are kept in a
  store, a list in which an object is addressed by its position.  The copy constructor
  and the constructor from a representation put the new object at the end; an
  elimination, which works in place, replaces the object at the address of its receiver;
  a local object is dropped when the function returns.  \<open>determinant_at\<close> is
  \<open>determinant\<close> called on the object at address \<open>this\<close>, with its result and the store
  after the call.
\<close>

definition copy_object :: "'a matrix list \<Rightarrow> nat \<Rightarrow> nat \<times> 'a matrix list" where
  "copy_object h a = (length h, h @ [h ! a])"

definition new_object :: "'a matrix list \<Rightarrow> 'a matrix \<Rightarrow> nat \<times> 'a matrix list" where
  "new_object h M = (length h, h @ [M])"

definition gauss_elimination_at ::
  "'a::{field,abs,ord} ex_class \<Rightarrow> 'a matrix list \<Rightarrow> nat \<Rightarrow> bool \<Rightarrow> int \<times> 'a matrix list" where
  "gauss_elimination_at E h a det = (let (sign, M) = gauss_elimination E (h ! a) det in (sign, h[a := M]))"

definition division_free_elimination_at ::
  "'a::{field,abs,ord} matrix list \<Rightarrow> nat \<Rightarrow> bool \<Rightarrow> int \<times> 'a matrix list" where
  "division_free_elimination_at h a det =
     (let (sign, M) = division_free_elimination (h ! a) det in (sign, h[a := M]))"

definition fraction_free_elimination_at ::
  "'a::{field,abs,ord} ex_class \<Rightarrow> 'a matrix list \<Rightarrow> nat \<Rightarrow> bool \<Rightarrow> int \<times> 'a matrix list" where
  "fraction_free_elimination_at E h a det =
     (let (sign, M) = fraction_free_elimination E (h ! a) det in (sign, h[a := M]))"

definition determinant_at ::
  "'a::{field,abs,ord} ex_class \<Rightarrow> 'a matrix list \<Rightarrow> nat \<Rightarrow> determinant_algo
     \<Rightarrow> (exn + 'a) option \<times> 'a matrix list" where
  "determinant_at E h this algo0 =
     (if row (h ! this) \<noteq> col (h ! this)
      then (Some (Inl (Logic_error ''matrix::determinant(): matrix not square'')), h)
      else (let (numeric_flag, normal_flag, sparse_count) = determinant_stats E (h ! this);
                algo = determinant_choice algo0 (row (h ! this)) (col (h ! this)) numeric_flag sparse_count
            in if row (h ! this) = 1
               then (if normal_flag then (Some (Inr (normal (m (h ! this) ! 0))), h)
                     else (Some (Inr (expand (m (h ! this) ! 0))), h))
               else (case algo of
                       Gauss \<Rightarrow>
                         (let (tmp, h1) = copy_object h this;
                              (sign, h2) = gauss_elimination_at E h1 tmp True;
                              det = fold (\<lambda>d det. det * m (h2 ! tmp) ! (d * col (h2 ! this) + d))
                                         [0..<row (h2 ! this)] 1
                          in (if normal_flag then Some (Inr (normal (of_int sign * det)))
                              else Some (Inr (expand (normal (of_int sign * det)))),
                              take (length h) h2))
                     | Bareiss \<Rightarrow>
                         (let (tmp, h1) = copy_object h this;
                              (sign, h2) = fraction_free_elimination_at E h1 tmp True;
                              last = m (h2 ! tmp) ! (row (h2 ! this) * col (h2 ! this) - 1)
                          in (if normal_flag then Some (Inr (normal (of_int sign * last)))
                              else Some (Inr (expand (of_int sign * last))),
                              take (length h) h2))
                     | Divfree \<Rightarrow>
                         (let (tmp, h1) = copy_object h this;
                              (sign, h2) = division_free_elimination_at h1 tmp True
                          in if sign = 0 then (Some (Inr 0), take (length h) h2)
                             else (let det = fold (\<lambda>d. fold (\<lambda>j det. normal (det / m (h2 ! tmp) ! (d * col (h2 ! this) + d)))
                                                           [0..<row (h2 ! this) - d - 2])
                                                  [0..<row (h2 ! this) - 2]
                                                  (m (h2 ! tmp) ! (row (h2 ! this) * col (h2 ! this) - 1))
                                   in (Some (Inr (of_int sign * det)), take (length h) h2)))
                     | _ \<Rightarrow>
                         (let pre_sort = laplace_pre_sort (h ! this);
                              sign = permutation_sign pre_sort;
                              (sorted, h1) = new_object h (laplace_sorted (h ! this) pre_sort)
                          in (case determinant_minor (h1 ! sorted) of
                                None \<Rightarrow> None
                              | Some d \<Rightarrow>
                                  if normal_flag then Some (Inr (normal (of_int sign * d)))
                                  else Some (Inr (of_int sign * d)),
                              take (length h) h1)))))"

section \<open>A sample class\<close>

text \<open>
  The rational numbers as ring elements, for evaluating the operations on concrete
  matrices: the numbers below \<open>1000\<close> are plain numbers, the numbers from \<open>1000\<close> on
  stand for symbols, and every element is its own numerator.
\<close>

definition sample_class :: "rat ex_class" where
  "sample_class =
     \<lparr>info_numeric = (\<lambda>x. x < 1000),
      info_integer = (\<lambda>x. of_int \<lfloor>x\<rfloor> = x),
      info_negative = (\<lambda>x. x < 0),
      info_symbol = (\<lambda>x. 1000 \<le> x),
      info_crational_polynomial = (\<lambda>x. True),
      info_rational_function = (\<lambda>x. True),
      to_int = (\<lambda>x. \<lfloor>x\<rfloor>),
      numer = (\<lambda>x. x),
      denom = (\<lambda>x. 1),
      compare = (\<lambda>x y. if x < y then - 1 else if x = y then 0 else 1),
      symbol = (\<lambda>k. 1000 + of_nat k)\<rparr>"


section \<open>The determinant as an expansion\<close>

text \<open>
  The reference value of the determinant algorithms.  A row is a function from the
  column to the entry; \<open>drop_nth i\<close> removes row \<open>i\<close>, and \<open>minor_det c R\<close> is the
  expansion of the rows \<open>R\<close> along column \<open>c\<close>, with the minors taken from column
  \<open>c + 1\<close> on.
\<close>

definition drop_nth :: "nat \<Rightarrow> 'b list \<Rightarrow> 'b list" where
  "drop_nth i xs = take i xs @ drop (Suc i) xs"

function minor_det :: "nat \<Rightarrow> (nat \<Rightarrow> 'a::comm_ring_1) list \<Rightarrow> 'a" where
  "minor_det c R =
     (if R = [] then 1
      else (\<Sum>i<length R. (- 1) ^ i * (R ! i) c * minor_det (Suc c) (drop_nth i R)))"
  by pat_completeness auto
termination
  by (relation "measure (\<lambda>(c, R). length R)") (auto simp: drop_nth_def)

declare minor_det.simps [simp del]

text \<open>
  Row \<open>r\<close> of the vector \<open>xs\<close> of a matrix with \<open>n\<close> columns, the rows from \<open>k\<close> on,
  and the determinant of a square matrix: the expansion of all its rows from column
  \<open>0\<close> on.
\<close>

definition rowf :: "'a::zero list \<Rightarrow> nat \<Rightarrow> nat \<Rightarrow> nat \<Rightarrow> 'a" where
  "rowf xs n r c = (if c < n then xs ! (r * n + c) else 0)"

definition rows_from :: "'a::zero list \<Rightarrow> nat \<Rightarrow> nat \<Rightarrow> (nat \<Rightarrow> 'a) list" where
  "rows_from xs n k = map (rowf xs n) [k..<n]"

definition det_rows :: "'a::comm_ring_1 matrix \<Rightarrow> 'a" where
  "det_rows M = minor_det 0 (rows_from (m M) (col M) 0)"

text \<open>The entries that a vector of numerators and a vector of denominators represent.\<close>

definition fractions :: "'a::field list \<Rightarrow> 'a list \<Rightarrow> 'a list" where
  "fractions ns ds = map (\<lambda>(x, y). x / y) (zip ns ds)"

text \<open>
  A row with the columns \<open>j\<close> and \<open>j + 1\<close> interchanged, and a row with its columns
  rearranged by a list.
\<close>

definition swap_cols :: "nat \<Rightarrow> (nat \<Rightarrow> 'a) \<Rightarrow> nat \<Rightarrow> 'a" where
  "swap_cols j f = (\<lambda>x. f (if x = j then Suc j else if x = Suc j then j else x))"

definition permute_cols :: "nat list \<Rightarrow> (nat \<Rightarrow> 'a) \<Rightarrow> nat \<Rightarrow> 'a" where
  "permute_cols \<sigma> f = (\<lambda>c. f (\<sigma> ! c))"

text \<open>
  The keys of the minor expansion: the strictly increasing lists of \<open>k\<close> row indices
  below \<open>n\<close>.  A map of minors is right for column \<open>c\<close> when it yields, for every key
  of \<open>n - c\<close> rows, the expansion of these rows from column \<open>c\<close> on.
\<close>

definition combos :: "nat \<Rightarrow> nat \<Rightarrow> nat list set" where
  "combos n k = {S. length S = k \<and> sorted_wrt (<) S \<and> set S \<subseteq> {..<n}}"

definition table_ok :: "'a::field list \<Rightarrow> nat \<Rightarrow> nat \<Rightarrow> (nat list \<rightharpoonup> 'a) \<Rightarrow> bool" where
  "table_ok xs n c A \<longleftrightarrow>
     (\<forall>T\<in>combos n (n - c). minor_lookup A T = minor_det c (map (rowf xs n) T))"

section \<open>Numeric pivoting\<close>

text \<open>
  C2.  The documentation of \<open>pivot\<close> says that the numeric mode returns the row of the
  entry of largest absolute value in the column and swaps it into place.  On the
  \<open>2 \<times> 1\<close> matrix with entries \<open>1, 2\<close> the largest entry is in row \<open>1\<close>, but the
  numeric search leaves \<open>k\<close> at the row count once any entry below \<open>ro\<close> is not zero:
  \<open>pivot\<close> returns \<open>-1\<close> and does not swap.
\<close>

theorem pivot_numeric_misses_largest:
  "pivot \<lparr>row = 2, col = 1, m = [1, 2 :: rat]\<rparr> 0 0 False
     = (- 1, \<lparr>row = 2, col = 1, m = [1, 2]\<rparr>)"
  by (simp add: pivot_def is_zero_def Let_def pivot_numeric_scan.simps)

section \<open>Element access and loops\<close>

lemma elem_in_range:
  "r < row M \<Longrightarrow> c < col M \<Longrightarrow> elem M r c = Inr (m M ! (r * col M + c))"
  by (simp add: elem_def)


lemma for_each_fails_iff:
  assumes step: "\<And>i s. i \<in> set is \<Longrightarrow> P s \<Longrightarrow>
                   (if bad i then f i s = Inl err else (\<exists>s'. f i s = Inr s' \<and> P s'))"
    and init: "P s"
  shows "if (\<exists>i \<in> set is. bad i) then for_each is s f = Inl err
         else (\<exists>s'. for_each is s f = Inr s' \<and> P s')"
  using assms
proof (induction "is" arbitrary: s)
  case Nil
  then show ?case by simp
next
  case (Cons i "is")
  show ?case
  proof (cases "bad i")
    case True
    with Cons.prems(1) [of i s] Cons.prems(2) show ?thesis by simp
  next
    case False
    with Cons.prems(1) [of i s] Cons.prems(2) obtain s' where s': "f i s = Inr s'" "P s'"
      by auto
    have "if (\<exists>i \<in> set is. bad i) then for_each is s' f = Inl err
          else (\<exists>s''. for_each is s' f = Inr s'' \<and> P s'')"
      by (rule Cons.IH) (use Cons.prems(1) s'(2) in auto)
    with False s' show ?thesis by simp
  qed
qed

lemma for_each_succeeds:
  assumes step: "\<And>i s. i \<in> set is \<Longrightarrow> P s \<Longrightarrow> \<exists>s'. f i s = Inr s' \<and> P s'"
    and init: "P s"
  shows "\<exists>s'. for_each is s f = Inr s' \<and> P s'"
  using for_each_fails_iff [of "is" P "\<lambda>i. False" f undefined s] assms by auto

section \<open>The automatic choice of the determinant\<close>






section \<open>Square matrices only\<close>

text \<open>
  C9.  On a matrix that is not square \<open>trace\<close> throws a \<open>logic_error\<close> "matrix not
  square", as \<open>determinant\<close>, \<open>inverse\<close> and \<open>pow\<close> do; it returns no value.
\<close>

theorem trace_not_square:
  "row M \<noteq> col M \<Longrightarrow>
     trace E M = Inl (Logic_error ''matrix::trace(): matrix not square'')
     \<and> determinant E M algo = Some (Inl (Logic_error ''matrix::determinant(): matrix not square''))
     \<and> inverse_matrix E M = Inl (Logic_error ''matrix::inverse(): matrix not square'')
     \<and> pow E M expn = Some (Inl (Logic_error ''matrix::pow(): matrix not square''))"
  by (simp add: trace_def determinant_def inverse_matrix_def pow_def)

theorem trace_not_square_witness:
  "row \<lparr>row = 1, col = 2, m = [1, 2 :: rat]\<rparr> \<noteq> col \<lparr>row = 1, col = 2, m = [1, 2 :: rat]\<rparr>
   \<and> trace sample_class \<lparr>row = 1, col = 2, m = [1, 2]\<rparr>
       = Inl (Logic_error ''matrix::trace(): matrix not square'')"
  using trace_not_square [of "\<lparr>row = 1, col = 2, m = [1, 2 :: rat]\<rparr>" sample_class Gauss 2]
  by simp

section \<open>The canonical comparison\<close>

lemma compare_elements_find:
  assumes "\<forall>(r, c) \<in> set ps. r < row A \<and> c < col A" and "row B = row A" and "col B = col A"
  shows "compare_elements E A B ps
         = Inr (case find (\<lambda>(r, c). compare E (m A ! (r * col A + c)) (m B ! (r * col A + c)) \<noteq> 0) ps of
                  None \<Rightarrow> 0
                | Some (r, c) \<Rightarrow> compare E (m A ! (r * col A + c)) (m B ! (r * col A + c)))"
  using assms by (induction ps) (auto simp: elem_in_range Let_def)

lemma find_None_product:
  "find P (List.product [0..<a] [0..<b]) = None \<longleftrightarrow> (\<forall>r<a. \<forall>c<b. \<not> P (r, c))"
  by (auto simp: find_None_iff)

lemma find_Some_holds: "find P xs = Some x \<Longrightarrow> P x"
  by (induction xs) (auto split: if_splits)

lemma matrix_eq_entries:
  assumes "wf_matrix A" "wf_matrix B" "row A = row B" "col A = col B"
    and "\<forall>r<row A. \<forall>c<col A. m A ! (r * col A + c) = m B ! (r * col A + c)"
  shows "A = B"
proof -
  have len: "length (m A) = length (m B)"
    using assms by (simp add: wf_matrix_def)
  have "m A ! i = m B ! i" if "i < length (m A)" for i
  proof -
    have pos: "0 < col A" using assms by (simp add: wf_matrix_def)
    have i: "i < row A * col A" using that assms by (simp add: wf_matrix_def)
    have "i div col A < row A"
      using i pos by (simp add: less_mult_imp_div_less)
    moreover have "i mod col A < col A" using pos by simp
    ultimately have "m A ! (i div col A * col A + i mod col A) = m B ! (i div col A * col A + i mod col A)"
      using assms(5) by blast
    then show ?thesis by simp
  qed
  then have "m A = m B" using len by (simp add: nth_equalityI)
  then show ?thesis using assms by simp
qed

text \<open>
  C10.  The comparison never throws, whatever the shapes: it orders by the row count,
  then by the column count, and for equal shapes by the first pair of entries, in
  row-major order, that the canonical ordering tells apart.  When the canonical ordering
  returns zero exactly on equal elements, the result is zero exactly when both matrices
  have the same dimensions and the same entries.
\<close>

theorem compare_same_type_total:
  assumes cmp: "\<forall>a b. compare E a b = 0 \<longleftrightarrow> a = b"
  shows "compare_same_type E A B
         = Inr (if row A \<noteq> row B then (if row A < row B then - 1 else 1)
                else if col A \<noteq> col B then (if col A < col B then - 1 else 1)
                else (case find (\<lambda>(r, c). compare E (m A ! (r * col A + c)) (m B ! (r * col A + c)) \<noteq> 0)
                                (List.product [0..<row A] [0..<col A]) of
                        None \<Rightarrow> 0
                      | Some (r, c) \<Rightarrow> compare E (m A ! (r * col A + c)) (m B ! (r * col A + c))))
         \<and> (wf_matrix A \<and> wf_matrix B \<longrightarrow> (compare_same_type E A B = Inr 0 \<longleftrightarrow> A = B))"
proof -
  let ?P = "\<lambda>(r, c). compare E (m A ! (r * col A + c)) (m B ! (r * col A + c)) \<noteq> 0"
  let ?ps = "List.product [0..<row A] [0..<col A]"
  have first: "compare_same_type E A B
         = Inr (if row A \<noteq> row B then (if row A < row B then - 1 else 1)
                else if col A \<noteq> col B then (if col A < col B then - 1 else 1)
                else (case find ?P ?ps of
                        None \<Rightarrow> 0
                      | Some (r, c) \<Rightarrow> compare E (m A ! (r * col A + c)) (m B ! (r * col A + c))))"
  proof (cases "row A = row B \<and> col A = col B")
    case True
    have "\<forall>(r, c) \<in> set ?ps. r < row A \<and> c < col A"
      by auto
    from compare_elements_find [OF this, of B E] True show ?thesis
      by (simp add: compare_same_type_def)
  next
    case False
    then show ?thesis by (auto simp: compare_same_type_def)
  qed
  have second: "compare_same_type E A B = Inr 0 \<longleftrightarrow> A = B" if wf: "wf_matrix A" "wf_matrix B"
  proof
    assume zero: "compare_same_type E A B = Inr 0"
    have dims: "row A = row B \<and> col A = col B"
      using zero first by (auto split: if_splits)
    have none: "find ?P ?ps = None"
    proof (cases "find ?P ?ps")
      case None
      then show ?thesis .
    next
      case (Some x)
      then have "?P x" by (rule find_Some_holds)
      moreover have "(case x of (r, c) \<Rightarrow> compare E (m A ! (r * col A + c)) (m B ! (r * col A + c))) = 0"
        using zero first dims Some by simp
      ultimately show ?thesis by (cases x) simp
    qed
    then have "\<forall>r<row A. \<forall>c<col A. m A ! (r * col A + c) = m B ! (r * col A + c)"
      using cmp by (simp add: find_None_product)
    with wf dims show "A = B"
      by (intro matrix_eq_entries) simp_all
  next
    assume "A = B"
    then have "find (\<lambda>(r, c). compare E (m A ! (r * col A + c)) (m B ! (r * col A + c)) \<noteq> 0) ?ps = None"
      using cmp by (simp add: find_None_product)
    with \<open>A = B\<close> first show "compare_same_type E A B = Inr 0"
      by simp
  qed
  from first second show ?thesis by blast
qed

theorem compare_same_type_total_witness:
  "(\<forall>a b. compare sample_class a b = 0 \<longleftrightarrow> a = b)
   \<and> wf_matrix \<lparr>row = 1, col = 2, m = [1, 2 :: rat]\<rparr>
   \<and> compare_same_type sample_class \<lparr>row = 1, col = 2, m = [1, 2]\<rparr> \<lparr>row = 1, col = 2, m = [1, 2]\<rparr> = Inr 0
   \<and> compare_same_type sample_class \<lparr>row = 1, col = 2, m = [1, 2]\<rparr> \<lparr>row = 2, col = 1, m = [1, 2]\<rparr> = Inr (- 1)"
proof -
  have cmp: "\<forall>a b. compare sample_class a b = 0 \<longleftrightarrow> a = b"
    by (simp add: sample_class_def)
  have wf: "wf_matrix \<lparr>row = 1, col = 2, m = [1, 2 :: rat]\<rparr>"
    by (simp add: wf_matrix_def)
  have same: "compare_same_type sample_class \<lparr>row = 1, col = 2, m = [1, 2]\<rparr> \<lparr>row = 1, col = 2, m = [1, 2]\<rparr> = Inr 0"
    using compare_same_type_total [OF cmp, of "\<lparr>row = 1, col = 2, m = [1, 2]\<rparr>" "\<lparr>row = 1, col = 2, m = [1, 2]\<rparr>", THEN conjunct2] wf
    by simp
  have other: "compare_same_type sample_class \<lparr>row = 1, col = 2, m = [1, 2]\<rparr> \<lparr>row = 2, col = 1, m = [1, 2]\<rparr> = Inr (- 1)"
    using compare_same_type_total [OF cmp, of "\<lparr>row = 1, col = 2, m = [1, 2]\<rparr>" "\<lparr>row = 2, col = 1, m = [1, 2]\<rparr>", THEN conjunct1]
    by simp
  from cmp wf same other show ?thesis by blast
qed

section \<open>Inconsistent systems\<close>









section \<open>Exceptions of the inverse\<close>

lemma for_each_error:
  assumes "\<And>i s e. i \<in> set is \<Longrightarrow> f i s = Inl e \<Longrightarrow> Q e"
    and "for_each is s f = Inl e"
  shows "Q e"
  using assms by (induction "is" arbitrary: s) (auto split: sum.splits)

lemma elem_error: "elem M r c = Inl e \<Longrightarrow> e = Range_error ''matrix::operator(): index out of range''"
  by (auto simp: elem_def split: if_splits)

lemma set_elem_error:
  "set_elem M r c v = Inl e \<Longrightarrow> e = Range_error ''matrix::operator(): index out of range''"
  by (auto simp: set_elem_def split: if_splits)

lemma solve_row_error:
  assumes "solve_row aug vars n p co r st = Inl e"
  shows "e \<noteq> Range_error ''matrix::solve(): inconsistent linear system''"
proof -
  obtain sol last where st: "st = (sol, last)" by (cases st)
  have a: "e' \<noteq> Range_error ''matrix::solve(): inconsistent linear system''"
    if "for_each is sol (\<lambda>c sol. set_elem sol c co (m vars ! (c * p + co))) = Inl e'" for e' "is"
    using that by (rule for_each_error [rotated]) (auto dest: set_elem_error)
  show ?thesis
    using assms a unfolding solve_row_def st
    by (auto simp: Let_def split: if_splits sum.splits dest!: set_elem_error)
qed

lemma solve_column_error:
  assumes "solve_column aug vars mm n p co sol = Inl e"
  shows "e \<noteq> Range_error ''matrix::solve(): inconsistent linear system''"
proof -
  have a: "e' \<noteq> Range_error ''matrix::solve(): inconsistent linear system''"
    if "for_each is st (solve_row aug vars n p co) = Inl e'" for e' "is" st
    using that by (rule for_each_error [rotated]) (auto dest: solve_row_error)
  have b: "e' \<noteq> Range_error ''matrix::solve(): inconsistent linear system''"
    if "for_each is s (\<lambda>ro sol. case elem vars ro co of Inl e \<Rightarrow> Inl e | Inr v \<Rightarrow> set_elem sol ro co v) = Inl e'"
    for e' "is" s
    using that by (rule for_each_error [rotated]) (auto split: sum.splits dest!: set_elem_error elem_error)
  show ?thesis
    using assms a b unfolding solve_column_def
    by (auto split: sum.splits prod.splits)
qed

lemma solve_check_vars_error:
  assumes "solve_check_vars E vars n p = Inl e"
  shows "e \<noteq> Range_error ''matrix::solve(): inconsistent linear system''"
proof -
  have inner: "e' \<noteq> Range_error ''matrix::solve(): inconsistent linear system''"
    if "for_each is u (\<lambda>co u. case elem vars ro co of Inl e \<Rightarrow> Inl e
               | Inr v \<Rightarrow> if \<not> info_symbol E v
                          then Inl (Invalid_argument ''matrix::solve(): 1st argument must be matrix of symbols'')
                          else Inr ()) = Inl e'" for e' "is" ro and u :: unit
    using that by (rule for_each_error [rotated]) (auto split: sum.splits if_splits dest!: elem_error)
  show ?thesis
    using assms unfolding solve_check_vars_def
    by (rule for_each_error [rotated]) (use inner in auto)
qed

lemma solve_error:
  assumes "solve E A vars rhs algo = Inl e"
  shows "e \<noteq> Range_error ''matrix::solve(): inconsistent linear system''"
proof -
  have a: "e' \<noteq> Range_error ''matrix::solve(): inconsistent linear system''"
    if "for_each is s (solve_column aug vars mm n p) = Inl e'" for e' "is" s aug mm n p
    using that by (rule for_each_error [rotated]) (auto dest: solve_column_error)
  show ?thesis
    using assms a unfolding solve_def
    by (auto simp: Let_def split: if_splits sum.splits dest: solve_check_vars_error)
qed

lemma inverse_identity_ok:
  assumes "row M \<le> col M"
  shows "\<exists>identity. inverse_identity M = Inr identity \<and> row identity = row M \<and> col identity = col M"
  unfolding inverse_identity_def
proof (rule for_each_succeeds)
  show "row (matrix_zero (row M) (col M)) = row M \<and> col (matrix_zero (row M) (col M)) = col M"
    by (simp add: matrix_zero_def)
next
  fix i and s :: "'a matrix"
  assume "i \<in> set [0..<row M]" "row s = row M \<and> col s = col M"
  then show "\<exists>s'. set_elem s i i 1 = Inr s' \<and> row s' = row M \<and> col s' = col M"
    using assms by (simp add: set_elem_def)
qed

lemma inverse_vars_ok:
  "\<exists>vars. inverse_vars E M = Inr vars \<and> row vars = row M \<and> col vars = col M"
  unfolding inverse_vars_def
proof (rule for_each_succeeds)
  show "row (matrix_zero (row M) (col M)) = row M \<and> col (matrix_zero (row M) (col M)) = col M"
    by (simp add: matrix_zero_def)
next
  fix i and s :: "'a matrix"
  assume i: "i \<in> set [0..<row M]" and s: "row s = row M \<and> col s = col M"
  show "\<exists>s'. for_each [0..<col M] s (\<lambda>c vars. set_elem vars i c (symbol E (i * col M + c))) = Inr s'
             \<and> row s' = row M \<and> col s' = col M"
  proof (rule for_each_succeeds)
    show "row s = row M \<and> col s = col M" by (rule s)
  next
    fix c and t :: "'a matrix"
    assume "c \<in> set [0..<col M]" "row t = row M \<and> col t = col M"
    then show "\<exists>s'. set_elem t i c (symbol E (i * col M + c)) = Inr s' \<and> row s' = row M \<and> col s' = col M"
      using i by (simp add: set_elem_def)
  qed
qed

text \<open>
  C4.  For a square matrix the identity and the matrix of fresh symbols are built
  without an exception, and \<open>inverse\<close> is the \<open>try\<close> block applied to the outcome of
  \<open>solve\<close>.  Whatever exception the call throws, the block throws \<open>runtime_error\<close>
  "singular matrix" when the exception is a \<open>runtime_error\<close> with the message
  "inconsistent linear system" and throws the very same exception otherwise; a solution
  is returned as it is.  For the exceptions that \<open>solve\<close> does throw: "inconsistent
  linear system" becomes "singular matrix" and every other one leaves \<open>inverse\<close>
  as it is.
\<close>

theorem inverse_translates_inconsistent:
  fixes M :: "'a::{field,abs,ord} matrix"
  assumes "row M = col M"
  shows "\<exists>identity vars.
           inverse_identity M = Inr identity \<and> inverse_vars E M = Inr vars \<and>
           inverse_matrix E M = inverse_try (solve E M vars identity Solve_automatic) \<and>
           (\<forall>e. inverse_try (Inl e :: exn + 'a matrix)
                = Inl (if is_runtime_error e \<and> what e = ''matrix::solve(): inconsistent linear system''
                       then Runtime_error ''matrix::inverse(): singular matrix''
                       else e)) \<and>
           (\<forall>sol. inverse_try (Inr sol :: exn + 'a matrix) = Inr sol) \<and>
           (case solve E M vars identity Solve_automatic of
              Inl e \<Rightarrow>
                inverse_matrix E M
                = Inl (if e = Runtime_error ''matrix::solve(): inconsistent linear system''
                       then Runtime_error ''matrix::inverse(): singular matrix''
                       else e)
            | Inr sol \<Rightarrow> inverse_matrix E M = Inr sol)"
proof -
  obtain identity where identity: "inverse_identity M = Inr identity"
    using inverse_identity_ok [of M] assms by auto
  obtain vars where vars: "inverse_vars E M = Inr vars"
    using inverse_vars_ok [of E M] by auto
  have inv: "inverse_matrix E M = inverse_try (solve E M vars identity Solve_automatic)"
    using assms identity vars by (simp add: inverse_matrix_def)
  have handler: "inverse_try (Inl e :: exn + 'a matrix)
        = Inl (if is_runtime_error e \<and> what e = ''matrix::solve(): inconsistent linear system''
               then Runtime_error ''matrix::inverse(): singular matrix'' else e)" for e
    by (simp add: inverse_try_def)
  have result: "inverse_try (Inr sol :: exn + 'a matrix) = Inr sol" for sol
    by (simp add: inverse_try_def)
  have "inverse_matrix E M
        = Inl (if e = Runtime_error ''matrix::solve(): inconsistent linear system''
               then Runtime_error ''matrix::inverse(): singular matrix'' else e)"
    if "solve E M vars identity Solve_automatic = Inl e" for e
  proof -
    have "e \<noteq> Range_error ''matrix::solve(): inconsistent linear system''"
      using that by (rule solve_error)
    then show ?thesis
      unfolding inv that handler by (cases e) simp_all
  qed
  moreover have "inverse_matrix E M = Inr sol"
    if "solve E M vars identity Solve_automatic = Inr sol" for sol
    unfolding inv that by (rule result)
  ultimately have "case solve E M vars identity Solve_automatic of
              Inl e \<Rightarrow>
                inverse_matrix E M
                = Inl (if e = Runtime_error ''matrix::solve(): inconsistent linear system''
                       then Runtime_error ''matrix::inverse(): singular matrix''
                       else e)
            | Inr sol \<Rightarrow> inverse_matrix E M = Inr sol"
    by (auto split: sum.splits)
  then show ?thesis
    using identity vars inv handler result by blast
qed

theorem inverse_translates_inconsistent_witness:
  "inverse_matrix sample_class \<lparr>row = 2, col = 2, m = [1, 1, 1, 1]\<rparr>
   = Inl (Runtime_error ''matrix::inverse(): singular matrix'')
   \<and> inverse_try (Inl (Runtime_error ''matrix::solve(): another failure'') :: exn + rat matrix)
     = Inl (Runtime_error ''matrix::solve(): another failure'')
   \<and> inverse_try (Inl (Range_error ''matrix::operator(): index out of range'') :: exn + rat matrix)
     = Inl (Range_error ''matrix::operator(): index out of range'')"
proof -
  let ?M = "\<lparr>row = 2, col = 2, m = [1, 1, 1, 1 :: rat]\<rparr>"
  have sq: "row ?M = col ?M" by simp
  have i: "inverse_identity ?M = Inr \<lparr>row = 2, col = 2, m = [1, 0, 0, 1]\<rparr>"
    by code_simp
  have v: "inverse_vars sample_class ?M = Inr \<lparr>row = 2, col = 2, m = [1000, 1001, 1002, 1003]\<rparr>"
    by code_simp
  have s: "solve sample_class ?M \<lparr>row = 2, col = 2, m = [1000, 1001, 1002, 1003]\<rparr>
             \<lparr>row = 2, col = 2, m = [1, 0, 0, 1]\<rparr> Solve_automatic
           = Inl (Runtime_error ''matrix::solve(): inconsistent linear system'')"
    by code_simp
  show ?thesis
    using inverse_translates_inconsistent [OF sq, of sample_class] i v s by auto
qed

section \<open>A system with a free parameter\<close>

lemmas eval_loops = eval_nat_numeral upt_rec Let_def is_zero_def expand_def normal_def unsigned_pred_def

lemma free_parameter_gauss: "m (snd (gauss_elimination E \<lparr>row = 2, col = 3, m = [1, 1, 2, 1, 1, 2 :: 'a :: {field,abs,ord}]\<rparr> False))
   = [1, 1, 2, 0, 0, 0]"
  by (simp add: gauss_elimination_def gauss_loop.simps pivot_def pivot_symbolic_scan.simps gauss_row_def eval_loops)

lemma free_parameter_divfree: "m (snd (division_free_elimination \<lparr>row = 2, col = 3, m = [1, 1, 2, 1, 1, 2 :: 'a :: {field,abs,ord}]\<rparr> False))
   = [1, 1, 2, 0, 0, 0]"
  by (simp add: division_free_elimination_def divfree_loop.simps pivot_def pivot_symbolic_scan.simps divfree_row_def eval_loops)

lemma free_parameter_augmented: "solve_augmented \<lparr>row = 2, col = 2, m = [1, 1, 1, 1]\<rparr> \<lparr>row = 2, col = 1, m = [2, 2]\<rparr>
   = \<lparr>row = 2, col = 3, m = [1, 1, 2, 1, 1, 2 :: 'a :: field]\<rparr>"
  by (simp add: solve_augmented_def eval_loops)

lemma free_parameter_eliminated: "m (solve_eliminated E \<lparr>row = 2, col = 2, m = [1, 1, 1, 1]\<rparr> \<lparr>row = 2, col = 1, m = [2, 2]\<rparr> Solve_automatic)
   = [1, 1, 2, 0, 0, 0 :: 'a :: {field,abs,ord}]"
  unfolding solve_eliminated_def free_parameter_augmented
  by (simp add: solve_choice_def free_parameter_gauss free_parameter_divfree Let_def)

text \<open>
  C7.  Solving \<open>[[1,1],[1,1]] \<cdot> [x,y] = [2,2]\<close> for the symbols \<open>x\<close> and \<open>y\<close> with the
  automatic choice of the algorithm does not throw: the solution gives \<open>x\<close> as
  \<open>2 - y\<close> and leaves \<open>y\<close> as the symbol that the caller supplied.
\<close>

theorem solve_free_parameter:
  fixes x y :: "'a :: {field,abs,ord}"
  assumes "info_symbol E x" "info_symbol E y"
  shows "solve E \<lparr>row = 2, col = 2, m = [1, 1, 1, 1]\<rparr> \<lparr>row = 2, col = 1, m = [x, y]\<rparr>
           \<lparr>row = 2, col = 1, m = [2, 2]\<rparr> Solve_automatic
         = Inr \<lparr>row = 2, col = 1, m = [2 - y, y]\<rparr>"
  unfolding solve_def free_parameter_eliminated
  using assms
  by (simp add: solve_check_vars_def elem_def set_elem_def matrix_zero_def
        solve_column_def solve_row_def solve_fnz.simps eval_loops)

theorem solve_free_parameter_witness:
  "info_symbol sample_class 1000 \<and> info_symbol sample_class 1001
   \<and> solve sample_class \<lparr>row = 2, col = 2, m = [1, 1, 1, 1]\<rparr> \<lparr>row = 2, col = 1, m = [1000, 1001]\<rparr>
         \<lparr>row = 2, col = 1, m = [2, 2]\<rparr> Solve_automatic
       = Inr \<lparr>row = 2, col = 1, m = [- 999, 1001]\<rparr>"
  using solve_free_parameter [of sample_class 1000 1001]
  by (simp add: sample_class_def)

section \<open>Integer powers\<close>

lemma for_each_append:
  "for_each (xs @ ys) s f = (case for_each xs s f of Inl e \<Rightarrow> Inl e | Inr s' \<Rightarrow> for_each ys s' f)"
  by (induction xs arbitrary: s) (auto split: sum.splits)

lemma identity_loop:
  assumes "row Z = n" "col Z = n" "k \<le> n"
  shows "for_each [0..<k] Z (\<lambda>r result. set_elem result r r 1)
         = Inr (Z\<lparr>m := fold (\<lambda>i xs. xs[i * n + i := 1]) [0..<k] (m Z)\<rparr>)"
  using assms(3)
proof (induction k)
  case 0
  then show ?case by simp
next
  case (Suc k)
  then show ?case using assms(1,2)
    by (simp add: for_each_append set_elem_def)
qed

lemma diagonal_fold_length:
  "length (fold (\<lambda>i xs. xs[i * n + i := 1]) [0..<k] xs) = length xs"
  by (induction k) simp_all

lemma diagonal_fold_nth:
  assumes "j < n * n"
  shows "fold (\<lambda>i xs. xs[i * n + i := 1]) [0..<k] (replicate (n * n) (0::'a::{zero,one})) ! j
         = (if \<exists>i<k. j = i * n + i then 1 else 0)"
proof (induction k)
  case 0
  then show ?case using assms by simp
next
  case (Suc k)
  have len: "j < length (fold (\<lambda>i xs. xs[i * n + i := 1]) [0..<k] (replicate (n * n) (0::'a)))"
    using assms by (simp add: diagonal_fold_length)
  show ?case
  proof (cases "j = k * n + k")
    case True
    then have "\<exists>i<Suc k. j = i * n + i" by blast
    then show ?thesis using len True by simp
  next
    case False
    then have "(\<exists>i<Suc k. j = i * n + i) \<longleftrightarrow> (\<exists>i<k. j = i * n + i)"
      by (auto simp: less_Suc_eq)
    then show ?thesis using False Suc by simp
  qed
qed

lemma diagonal_index:
  assumes "j < n * (n::nat)"
  shows "(\<exists>i<n. j = i * n + i) \<longleftrightarrow> j div n = j mod n"
proof
  assume "\<exists>i<n. j = i * n + i"
  then obtain i where i: "i < n" "j = i * n + i" by blast
  have "0 < n" using i(1) by simp
  then have "(i + i * n) div n = i" "(i + i * n) mod n = i"
    using i(1) by simp_all
  then show "j div n = j mod n" using i(2) by (simp add: add.commute)
next
  assume eq: "j div n = j mod n"
  have pos: "0 < n" using assms by (cases n) simp_all
  have "j div n < n" using assms pos by (simp add: less_mult_imp_div_less)
  moreover have "j = j div n * n + j div n" using eq by (metis div_mult_mod_eq)
  ultimately show "\<exists>i<n. j = i * n + i" by blast
qed

lemma identity_loop_result:
  "for_each [0..<n] (matrix_zero n n) (\<lambda>r result. set_elem result r r 1)
   = Inr (identity_matrix n :: 'a::{zero,one} matrix)"
proof -
  have "fold (\<lambda>i xs. xs[i * n + i := 1]) [0..<n] (replicate (n * n) (0::'a))
        = map (\<lambda>i. if i div n = i mod n then 1 else 0) [0..<n * n]"
    by (rule nth_equalityI) (simp_all add: diagonal_fold_length diagonal_fold_nth diagonal_index)
  then show ?thesis
    using identity_loop [of "matrix_zero n n :: 'a matrix" n n]
    by (simp add: matrix_zero_def identity_matrix_def)
qed

lemma pow_loop_binary:
  "pow_loop (2 ^ i) (int k * 2 ^ i) result prd = Some (binary_exponentiation k result prd)"
proof (induction k result prd arbitrary: i rule: binary_exponentiation.induct)
  case (1 k acc base)
  let ?b = "(2::int) ^ i"
  have bpos: "0 < ?b" by simp
  show ?case
  proof (cases "k = 0")
    case True
    then show ?thesis
      by (subst pow_loop.simps, subst binary_exponentiation.simps) simp
  next
    case False
    then have le: "?b \<le> int k * ?b" by simp
    have modr: "(int k * ?b) mod (?b * 2) = int (k mod 2) * ?b"
    proof -
      have "(int k * ?b) mod (2 * ?b) = (int k mod 2) * ?b"
        by (simp add: mult_mod_left)
      then show ?thesis by (simp add: mult.commute zmod_int)
    qed
    have rne: "(int k * ?b) mod (?b * 2) \<noteq> 0 \<longleftrightarrow> odd k"
      unfolding modr using bpos by (auto simp: odd_iff_mod_2_eq_one)
    have k1: "(if odd k then int k * ?b - (int k * ?b) mod (?b * 2) else int k * ?b) = int (k div 2) * (?b * 2)"
    proof -
      have "int k = int (k div 2) * 2 + int (k mod 2)"
        by (metis div_mult_mod_eq of_nat_add of_nat_mult of_nat_numeral)
      then have "int k * ?b = int (k div 2) * (?b * 2) + int (k mod 2) * ?b"
        by (simp add: algebra_simps)
      then show ?thesis unfolding modr by (auto simp: odd_iff_mod_2_eq_one)
    qed
    have le2: "?b * 2 \<le> int (k div 2) * (?b * 2) \<longleftrightarrow> k div 2 \<noteq> 0"
      using bpos by (cases "k div 2") (simp_all add: algebra_simps)
    have unfold: "pow_loop ?b (int k * ?b) acc base
                = (let b1 = ?b * 2; r = (int k * ?b) mod b1
                   in case (if r \<noteq> 0 then mul acc base else Inr acc) of
                        Inl e \<Rightarrow> Some (Inl e)
                      | Inr result1 \<Rightarrow>
                          (let k1 = (if r \<noteq> 0 then int k * ?b - r else int k * ?b)
                           in case (if b1 \<le> k1 then mul base base else Inr base) of
                                Inl e \<Rightarrow> Some (Inl e)
                              | Inr prd1 \<Rightarrow> pow_loop b1 k1 result1 prd1))"
      using le by (subst pow_loop.simps) (simp only: if_True)
    have step: "pow_loop ?b (int k * ?b) acc base
                = (case (if odd k then mul acc base else Inr acc) of
                     Inl e \<Rightarrow> Some (Inl e)
                   | Inr acc1 \<Rightarrow>
                       (case (if k div 2 \<noteq> 0 then mul base base else Inr base) of
                          Inl e \<Rightarrow> Some (Inl e)
                        | Inr base1 \<Rightarrow> pow_loop (?b * 2) (int (k div 2) * (?b * 2)) acc1 base1))"
      unfolding unfold by (simp only: Let_def rne k1 le2)
    have stop: "pow_loop (?b * 2) 0 acc1 base1 = Some (Inr acc1)" for acc1 base1
      using bpos by (subst pow_loop.simps) simp
    have IH: "pow_loop (?b * 2) (int (k div 2) * (?b * 2)) acc1 base1
              = Some (binary_exponentiation (k div 2) acc1 base1)"
      if "(if odd k then mul acc base else Inr acc) = Inr acc1" "k div 2 \<noteq> 0" "mul base base = Inr base1"
      for acc1 base1
      using "1.IH" [OF False that, of "Suc i"] by (simp add: mult.commute)
    show ?thesis
      unfolding step
      by (subst binary_exponentiation.simps) (auto simp: False stop IH split: sum.splits)
  qed
qed

lemma pow_loop_from_one:
  "0 \<le> k \<Longrightarrow> pow_loop 1 k result prd = Some (binary_exponentiation (nat k) result prd)"
  using pow_loop_binary [of 0 "nat k" result prd] by simp

text \<open>
  C6.  For a square matrix and an exponent that is an integer number: the exponent zero
  yields the identity matrix of the same dimension, whatever the matrix; an exponent
  \<open>n \<ge> 0\<close> yields the binary exponentiation over \<open>n\<close> that starts from the
  identity; a negative exponent first computes the inverse, passes its exception on, and
  otherwise yields the binary exponentiation of the inverse over \<open>|n|\<close>.
\<close>

theorem pow_binary_exponentiation:
  assumes sq: "row M = col M"
    and num: "info_numeric E expn" "info_integer E expn"
    and neg: "info_negative E expn \<longleftrightarrow> to_int E expn < 0"
  shows "(to_int E expn = 0 \<longrightarrow> pow E M expn = Some (Inr (identity_matrix (row M))))
       \<and> (0 \<le> to_int E expn \<longrightarrow>
            pow E M expn
            = Some (binary_exponentiation (nat \<bar>to_int E expn\<bar>) (identity_matrix (row M)) M))
       \<and> (to_int E expn < 0 \<longrightarrow>
            pow E M expn
            = (case inverse_matrix E M of
                 Inl e \<Rightarrow> Some (Inl e)
               | Inr P \<Rightarrow> Some (binary_exponentiation (nat \<bar>to_int E expn\<bar>) (identity_matrix (row M)) P)))"
proof -
  have nonneg: "pow E M expn
                = Some (binary_exponentiation (nat \<bar>to_int E expn\<bar>) (identity_matrix (row M)) M)"
    if "0 \<le> to_int E expn"
    using that sq num neg by (simp add: pow_def identity_loop_result pow_loop_from_one)
  have zero: "pow E M expn = Some (Inr (identity_matrix (row M)))" if "to_int E expn = 0"
    using nonneg that by (simp add: binary_exponentiation.simps)
  have negative: "pow E M expn
            = (case inverse_matrix E M of
                 Inl e \<Rightarrow> Some (Inl e)
               | Inr P \<Rightarrow> Some (binary_exponentiation (nat \<bar>to_int E expn\<bar>) (identity_matrix (row M)) P))"
    if "to_int E expn < 0"
    using that sq num neg
    by (simp add: pow_def identity_loop_result pow_loop_from_one split: sum.splits)
  from zero nonneg negative show ?thesis by blast
qed

theorem pow_binary_exponentiation_witness:
  "pow sample_class \<lparr>row = 2, col = 2, m = [1, 1, 1, 1]\<rparr> 0
   = Some (Inr \<lparr>row = 2, col = 2, m = [1, 0, 0, 1]\<rparr>)"
proof -
  have "identity_matrix (row \<lparr>row = 2, col = 2, m = [1, 1, 1, 1 :: rat]\<rparr>)
        = \<lparr>row = 2, col = 2, m = [1, 0, 0, 1 :: rat]\<rparr>"
    by code_simp
  then show ?thesis
    using pow_binary_exponentiation [of "\<lparr>row = 2, col = 2, m = [1, 1, 1, 1]\<rparr>" sample_class 0]
    by (simp add: sample_class_def)
qed

section \<open>The receiver of the determinant\<close>

text \<open>
  C8.  Whatever the algorithm, a call of \<open>determinant\<close> on an object of the store leaves
  the store as it was, so the receiver has the dimensions and the entries it had before;
  the eliminations run on the working copy.  The result is the determinant of the
  receiver's value.
\<close>

theorem determinant_leaves_receiver:
  assumes "this < length h"
  shows "snd (determinant_at E h this algo) = h
       \<and> row (snd (determinant_at E h this algo) ! this) = row (h ! this)
       \<and> col (snd (determinant_at E h this algo) ! this) = col (h ! this)
       \<and> m (snd (determinant_at E h this algo) ! this) = m (h ! this)
       \<and> fst (determinant_at E h this algo) = determinant E (h ! this) algo"
proof -
  have frame: "snd (determinant_at E h this algo) = h"
    unfolding determinant_at_def
    by (auto simp: Let_def copy_object_def new_object_def gauss_elimination_at_def
          division_free_elimination_at_def fraction_free_elimination_at_def
          split: prod.splits determinant_algo.splits)
  have val: "fst (determinant_at E h this algo) = determinant E (h ! this) algo"
    unfolding determinant_at_def determinant_def using assms
    by (auto simp: Let_def copy_object_def new_object_def gauss_elimination_at_def
          division_free_elimination_at_def fraction_free_elimination_at_def nth_append
          split: prod.splits determinant_algo.splits)
  from frame val show ?thesis by simp
qed

theorem determinant_leaves_receiver_witness:
  "(0::nat) < length [\<lparr>row = 2, col = 2, m = [1, 2, 3, 4 :: rat]\<rparr>]
   \<and> snd (determinant_at sample_class [\<lparr>row = 2, col = 2, m = [1, 2, 3, 4]\<rparr>] 0 Gauss)
       = [\<lparr>row = 2, col = 2, m = [1, 2, 3, 4]\<rparr>]"
  using determinant_leaves_receiver [of 0 "[\<lparr>row = 2, col = 2, m = [1, 2, 3, 4 :: rat]\<rparr>]" sample_class Gauss]
  by simp

section \<open>The expansion along a column\<close>

lemma unsigned_pred_less: "k < n \<Longrightarrow> unsigned_pred n = n - 1"
  by (auto simp: unsigned_pred_def)

lemma length_drop_nth [simp]: "i < length xs \<Longrightarrow> length (drop_nth i xs) = length xs - 1"
  by (simp add: drop_nth_def)

lemma nth_drop_nth:
  "i < length xs \<Longrightarrow> j < length xs - 1 \<Longrightarrow> drop_nth i xs ! j = (if j < i then xs ! j else xs ! Suc j)"
  by (auto simp: drop_nth_def nth_append min_def)

lemma drop_nth_0 [simp]: "drop_nth 0 xs = tl xs"
  by (simp add: drop_nth_def drop_Suc)

lemma drop_nth_map: "drop_nth i (map f xs) = map f (drop_nth i xs)"
  by (simp add: drop_nth_def take_map drop_map)

lemma drop_nth_update_same: "drop_nth i (xs[i := x]) = drop_nth i xs"
  by (simp add: drop_nth_def)

lemma drop_nth_update_other:
  assumes "i \<noteq> k" "i < length xs" "k < length xs"
  shows "drop_nth k (xs[i := x]) = (drop_nth k xs)[(if i < k then i else i - 1) := x]"
proof (rule nth_equalityI)
  show "length (drop_nth k (xs[i := x])) = length ((drop_nth k xs)[(if i < k then i else i - 1) := x])"
    using assms by simp
next
  fix j assume "j < length (drop_nth k (xs[i := x]))"
  then have j: "j < length xs - 1" using assms by simp
  show "drop_nth k (xs[i := x]) ! j = (drop_nth k xs)[(if i < k then i else i - 1) := x] ! j"
    using assms j by (auto simp: nth_drop_nth nth_list_update)
qed

lemma minor_det_Nil [simp]: "minor_det c [] = 1"
  by (simp add: minor_det.simps)

lemma minor_det_expand:
  "R \<noteq> [] \<Longrightarrow> minor_det c R = (\<Sum>i<length R. (- 1) ^ i * (R ! i) c * minor_det (Suc c) (drop_nth i R))"
  by (subst minor_det.simps) simp

lemma minor_det_single [simp]: "minor_det c [f] = f c"
  by (simp add: minor_det_expand)

text \<open>Only the columns from c on, as many as there are rows, matter.\<close>

lemma minor_det_cong:
  assumes "length R = length R'"
    and "\<And>i j. i < length R \<Longrightarrow> c \<le> j \<Longrightarrow> j < c + length R \<Longrightarrow> (R ! i) j = (R' ! i) j"
  shows "minor_det c R = minor_det c R'"
  using assms
proof (induction "length R" arbitrary: c R R')
  case 0
  then show ?case by simp
next
  case (Suc k)
  have ne: "R \<noteq> []" "R' \<noteq> []" using Suc.hyps(2) Suc.prems(1) by auto
  have "minor_det (Suc c) (drop_nth i R) = minor_det (Suc c) (drop_nth i R')" if i: "i < length R" for i
  proof (rule Suc.hyps(1))
    show "k = length (drop_nth i R)" using i Suc.hyps(2) by simp
    show "length (drop_nth i R) = length (drop_nth i R')" using i Suc.prems(1) by simp
  next
    fix a j assume a: "a < length (drop_nth i R)" and j: "Suc c \<le> j" "j < Suc c + length (drop_nth i R)"
    have a': "a < length R - 1" using a i by simp
    have "(R ! b) j = (R' ! b) j" if "b < length R" for b
      using that j i Suc.prems(2) [of b j] by simp
    then show "(drop_nth i R ! a) j = (drop_nth i R' ! a) j"
      using a' i Suc.prems(1) by (simp add: nth_drop_nth)
  qed
  moreover have "(R ! i) c = (R' ! i) c" if "i < length R" for i
    using that Suc.prems(2) [of i c] ne by auto
  ultimately show ?case
    using ne Suc.prems(1) by (simp add: minor_det_expand)
qed

text \<open>Linearity in one row.\<close>

lemma minor_det_linear:
  assumes "i < length R"
  shows "minor_det c (R[i := (\<lambda>j. a * u j + b * v j)])
         = a * minor_det c (R[i := u]) + b * minor_det c (R[i := v])"
  using assms
proof (induction "length R" arbitrary: c R i u v)
  case 0
  then show ?case by simp
next
  case (Suc k)
  let ?w = "\<lambda>j. a * u j + b * v j"
  have ne: "R[i := x] \<noteq> []" for x using Suc.prems by auto
  have tm: "(- 1) ^ t * ((R[i := ?w]) ! t) c * minor_det (Suc c) (drop_nth t (R[i := ?w]))
              = a * ((- 1) ^ t * ((R[i := u]) ! t) c * minor_det (Suc c) (drop_nth t (R[i := u])))
              + b * ((- 1) ^ t * ((R[i := v]) ! t) c * minor_det (Suc c) (drop_nth t (R[i := v])))"
    if t: "t < length R" for t
  proof (cases "t = i")
    case True
    then show ?thesis using t by (simp add: drop_nth_update_same algebra_simps)
  next
    case False
    let ?i' = "if i < t then i else i - 1"
    have len: "k = length (drop_nth t R)" using t Suc.hyps(2) by simp
    have i': "?i' < length (drop_nth t R)" using t False Suc.prems by auto
    have "minor_det (Suc c) ((drop_nth t R)[?i' := ?w])
          = a * minor_det (Suc c) ((drop_nth t R)[?i' := u]) + b * minor_det (Suc c) ((drop_nth t R)[?i' := v])"
      by (rule Suc.hyps(1) [OF len i'])
    then show ?thesis
      using False t Suc.prems
      by (simp add: drop_nth_update_other [of i t] algebra_simps)
  qed
  show ?case
    unfolding minor_det_expand [OF ne]
    by (simp add: tm sum.distrib sum_distrib_left)
qed

lemma minor_det_add_row:
  assumes "i < length R"
  shows "minor_det c (R[i := (\<lambda>j. u j + b * v j)])
         = minor_det c (R[i := u]) + b * minor_det c (R[i := v])"
  using minor_det_linear [OF assms, of c 1 u b v] by simp

text \<open>Two equal neighbouring rows.\<close>

lemma drop_nth_adjacent_equal:
  assumes "Suc i < length R" "R ! i = R ! Suc i"
  shows "drop_nth i R = drop_nth (Suc i) R"
proof (rule nth_equalityI)
  show "length (drop_nth i R) = length (drop_nth (Suc i) R)" using assms by simp
next
  fix j assume "j < length (drop_nth i R)"
  then have j: "j < length R - 1" using assms by simp
  show "drop_nth i R ! j = drop_nth (Suc i) R ! j"
    using assms j by (auto simp: nth_drop_nth less_Suc_eq)
qed

lemma minor_det_adjacent_equal:
  assumes "Suc i < length R" "R ! i = R ! Suc i"
  shows "minor_det c R = 0"
  using assms
proof (induction "length R" arbitrary: c R i)
  case 0
  then show ?case by simp
next
  case (Suc k)
  have ne: "R \<noteq> []" using Suc.prems by auto
  let ?f = "\<lambda>t. (- 1) ^ t * (R ! t) c * minor_det (Suc c) (drop_nth t R)"
  have zero: "?f t = 0" if t: "t < length R" "t \<noteq> i" "t \<noteq> Suc i" for t
  proof -
    let ?i' = "if i < t then i else i - 1"
    have len: "k = length (drop_nth t R)" using t Suc.hyps(2) by simp
    have "Suc ?i' < length (drop_nth t R)" using t Suc.prems by auto
    moreover have "drop_nth t R ! ?i' = drop_nth t R ! Suc ?i'"
      using t Suc.prems by (auto simp: nth_drop_nth)
    ultimately have "minor_det (Suc c) (drop_nth t R) = 0"
      using Suc.hyps(1) [OF len] by blast
    then show ?thesis by simp
  qed
  have "(\<Sum>t<length R. ?f t) = (\<Sum>t\<in>{i, Suc i}. ?f t)"
    by (rule sum.mono_neutral_right) (use Suc.prems zero in auto)
  also have "\<dots> = ?f i + ?f (Suc i)" by simp
  also have "\<dots> = 0"
    using Suc.prems drop_nth_adjacent_equal [of i R] by simp
  finally show ?case by (simp add: minor_det_expand [OF ne])
qed

text \<open>Swapping two neighbouring rows.\<close>

lemma minor_det_adjacent_swap:
  assumes "Suc i < length R"
  shows "minor_det c (R[i := R ! Suc i, Suc i := R ! i]) = - minor_det c R"
proof -
  let ?u = "R ! i" and ?v = "R ! Suc i"
  let ?s = "\<lambda>j. ?u j + 1 * ?v j"
  have i: "i < length R" using assms by simp
  have sw: "R[i := x, Suc i := y] = R[Suc i := y, i := x]" for x y
    by (rule list_update_swap) simp
  have ss: "minor_det c (R[i := ?s, Suc i := ?s]) = 0"
    by (rule minor_det_adjacent_equal [of i]) (use assms in auto)
  have A: "minor_det c (R[i := ?s, Suc i := ?s])
        = minor_det c (R[i := ?s, Suc i := ?u]) + 1 * minor_det c (R[i := ?s, Suc i := ?v])"
    by (rule minor_det_add_row) (use assms in simp)
  have B: "minor_det c (R[Suc i := ?u, i := ?s])
        = minor_det c (R[Suc i := ?u, i := ?u]) + 1 * minor_det c (R[Suc i := ?u, i := ?v])"
    by (rule minor_det_add_row) (use i in simp)
  have C: "minor_det c (R[Suc i := ?v, i := ?s])
        = minor_det c (R[Suc i := ?v, i := ?u]) + 1 * minor_det c (R[Suc i := ?v, i := ?v])"
    by (rule minor_det_add_row) (use i in simp)
  have uu: "minor_det c (R[Suc i := ?u, i := ?u]) = 0"
    by (rule minor_det_adjacent_equal [of i]) (use assms in auto)
  have vv: "minor_det c (R[Suc i := ?v, i := ?v]) = 0"
    by (rule minor_det_adjacent_equal [of i]) (use assms in auto)
  have id: "R[Suc i := ?v, i := ?u] = R" by simp
  have "0 = minor_det c (R[Suc i := ?u, i := ?v]) + minor_det c R"
    using ss A B C uu vv unfolding sw id by simp
  then show ?thesis unfolding sw by (simp add: add_eq_0_iff)
qed

text \<open>Two equal rows anywhere.\<close>

lemma minor_det_equal_rows:
  assumes "i < j" "j < length R" "R ! i = R ! j"
  shows "minor_det c R = 0"
  using assms
proof (induction "j - i" arbitrary: j R)
  case 0
  then show ?case by simp
next
  case (Suc d)
  show ?case
  proof (cases "j = Suc i")
    case True
    then show ?thesis using Suc.prems minor_det_adjacent_equal [of i R c] by simp
  next
    case False
    then obtain j' where j': "j = Suc j'" "i < j'" using Suc.prems(1) by (cases j) auto
    let ?R = "R[j' := R ! Suc j', Suc j' := R ! j']"
    have "minor_det c ?R = 0"
    proof (rule Suc.hyps(1))
      show "d = j' - i" using Suc.hyps(2) j' by simp
      show "i < j'" by (rule j'(2))
      show "j' < length ?R" using Suc.prems j' by simp
      show "?R ! i = ?R ! j'" using Suc.prems j' by simp
    qed
    moreover have "minor_det c ?R = - minor_det c R"
      by (rule minor_det_adjacent_swap) (use Suc.prems j' in simp)
    ultimately show ?thesis by simp
  qed
qed

text \<open>Swapping two rows.\<close>

lemma minor_det_swap:
  assumes "i < j" "j < length R"
  shows "minor_det c (R[i := R ! j, j := R ! i]) = - minor_det c R"
  using assms
proof (induction "j - i" arbitrary: j R)
  case 0
  then show ?case by simp
next
  case (Suc d)
  show ?case
  proof (cases "j = Suc i")
    case True
    then show ?thesis using Suc.prems minor_det_adjacent_swap [of i R c] by simp
  next
    case False
    then obtain j' where j': "j = Suc j'" "i < j'" using Suc.prems(1) by (cases j) auto
    let ?R1 = "R[j' := R ! Suc j', Suc j' := R ! j']"
    let ?R2 = "?R1[i := ?R1 ! j', j' := ?R1 ! i]"
    let ?R3 = "?R2[j' := ?R2 ! Suc j', Suc j' := ?R2 ! j']"
    have len: "Suc j' < length R" using Suc.prems j' by simp
    have 1: "minor_det c ?R1 = - minor_det c R"
      by (rule minor_det_adjacent_swap) (rule len)
    have 2: "minor_det c ?R2 = - minor_det c ?R1"
      by (rule Suc.hyps(1)) (use Suc.hyps(2) j' len in auto)
    have 3: "minor_det c ?R3 = - minor_det c ?R2"
      by (rule minor_det_adjacent_swap) (use len in simp)
    have "?R3 = R[i := R ! j, j := R ! i]"
      by (rule nth_equalityI) (use j' len in \<open>auto simp: nth_list_update\<close>)
    with 1 2 3 show ?thesis by simp
  qed
qed

text \<open>Adding a multiple of another row.\<close>

lemma minor_det_row_operation:
  assumes "i < length R" "j < length R" "i \<noteq> j"
  shows "minor_det c (R[i := (\<lambda>x. (R ! i) x + a * (R ! j) x)]) = minor_det c R"
proof -
  have "minor_det c (R[i := R ! j]) = 0"
  proof (cases "i < j")
    case True
    then show ?thesis using assms minor_det_equal_rows [of i j "R[i := R ! j]" c] by simp
  next
    case False
    then have "j < i" using assms by simp
    then show ?thesis using assms minor_det_equal_rows [of j i "R[i := R ! j]" c] by simp
  qed
  then show ?thesis
    using minor_det_add_row [OF assms(1), of c "R ! i" a "R ! j"] by simp
qed

text \<open>A first column that is zero below the first row, or zero altogether.\<close>

lemma minor_det_first_column:
  assumes "R \<noteq> []" "\<And>i. 0 < i \<Longrightarrow> i < length R \<Longrightarrow> (R ! i) c = 0"
  shows "minor_det c R = (R ! 0) c * minor_det (Suc c) (tl R)"
proof -
  let ?f = "\<lambda>t. (- 1) ^ t * (R ! t) c * minor_det (Suc c) (drop_nth t R)"
  have "(\<Sum>t<length R. ?f t) = (\<Sum>t\<in>{0}. ?f t)"
    by (rule sum.mono_neutral_right) (use assms in auto)
  then show ?thesis using assms(1) by (simp add: minor_det_expand)
qed

lemma minor_det_zero_column:
  assumes "R \<noteq> []" "\<And>i. i < length R \<Longrightarrow> (R ! i) c = 0"
  shows "minor_det c R = 0"
  using assms by (simp add: minor_det_expand)

text \<open>Scaling every row.\<close>

lemma minor_det_scale:
  "minor_det c (map (\<lambda>f j. a * f j) R) = a ^ length R * minor_det c R"
proof (induction "length R" arbitrary: c R)
  case 0
  then show ?case by simp
next
  case (Suc k)
  have ne: "R \<noteq> []" using Suc.hyps(2) by auto
  have len: "length R = Suc k" using Suc.hyps(2) by simp
  have "minor_det (Suc c) (map (\<lambda>f j. a * f j) (drop_nth t R)) = a ^ k * minor_det (Suc c) (drop_nth t R)"
    if "t < length R" for t
    using Suc.hyps(1) [of "drop_nth t R" "Suc c"] that len by simp
  then have tm: "(- 1) ^ t * (map (\<lambda>f j. a * f j) R ! t) c * minor_det (Suc c) (drop_nth t (map (\<lambda>f j. a * f j) R))
        = a ^ Suc k * ((- 1) ^ t * (R ! t) c * minor_det (Suc c) (drop_nth t R))"
    if "t < length R" for t
    using that by (simp add: drop_nth_map algebra_simps)
  have "minor_det c (map (\<lambda>f j. a * f j) R)
        = (\<Sum>t<length R. (- 1) ^ t * (map (\<lambda>f j. a * f j) R ! t) c
              * minor_det (Suc c) (drop_nth t (map (\<lambda>f j. a * f j) R)))"
    using ne by (simp add: minor_det_expand)
  also have "\<dots> = (\<Sum>t<length R. a ^ Suc k * ((- 1) ^ t * (R ! t) c * minor_det (Suc c) (drop_nth t R)))"
    by (rule sum.cong) (simp_all only: tm lessThan_iff)
  also have "\<dots> = a ^ Suc k * (\<Sum>t<length R. (- 1) ^ t * (R ! t) c * minor_det (Suc c) (drop_nth t R))"
    by (simp only: sum_distrib_left)
  also have "\<dots> = a ^ length R * minor_det c R"
    using ne len by (simp only: minor_det_expand [OF ne])
  finally show ?case .
qed

section \<open>Elimination below a pivot\<close>

text \<open>Elimination below a pivot in the first column.\<close>

lemma minor_det_eliminate_rows:
  fixes r0 :: "nat \<Rightarrow> 'a::field"
  shows "minor_det c (r0 # Ps @ map (\<lambda>f j. f j + (- (f c / r0 c)) * r0 j) Rs) = minor_det c (r0 # Ps @ Rs)"
proof (induction Rs arbitrary: Ps)
  case Nil
  then show ?case by simp
next
  case (Cons f Rs)
  let ?g = "\<lambda>f j. f j + (- (f c / r0 c)) * r0 j"
  let ?L = "r0 # Ps @ f # Rs"
  have "minor_det c (r0 # Ps @ map ?g (f # Rs)) = minor_det c (r0 # (Ps @ [?g f]) @ map ?g Rs)"
    by simp
  also have "\<dots> = minor_det c (r0 # (Ps @ [?g f]) @ Rs)"
    by (rule Cons.IH)
  also have "r0 # (Ps @ [?g f]) @ Rs = ?L[Suc (length Ps) := (\<lambda>x. (?L ! Suc (length Ps)) x + (- (f c / r0 c)) * (?L ! 0) x)]"
    by (simp add: list_update_append nth_append)
  also have "minor_det c \<dots> = minor_det c ?L"
    by (rule minor_det_row_operation) simp_all
  finally show ?case .
qed

lemma minor_det_eliminate:
  fixes r0 :: "nat \<Rightarrow> 'a::field"
  assumes "r0 c \<noteq> 0"
  shows "minor_det c (r0 # Rs) = r0 c * minor_det (Suc c) (map (\<lambda>f j. f j - (f c / r0 c) * r0 j) Rs)"
proof -
  let ?g = "\<lambda>f j. f j + (- (f c / r0 c)) * r0 j"
  have eq: "(\<lambda>f j. f j - (f c / r0 c) * r0 j) = ?g" by (simp add: fun_eq_iff)
  have "minor_det c (r0 # Rs) = minor_det c (r0 # map ?g Rs)"
    using minor_det_eliminate_rows [of c r0 "[]" Rs] by simp
  also have "\<dots> = ((r0 # map ?g Rs) ! 0) c * minor_det (Suc c) (tl (r0 # map ?g Rs))"
  proof (rule minor_det_first_column)
    fix i assume "0 < i" "i < length (r0 # map ?g Rs)"
    then obtain i' where i': "i = Suc i'" "i' < length Rs" by (cases i) auto
    then show "((r0 # map ?g Rs) ! i) c = 0" using assms by simp
  qed simp
  finally show ?thesis unfolding eq by simp
qed

text \<open>The rows of a flat vector with n columns, as functions of the column.\<close>

lemma index_eq_iff:
  "c < n \<Longrightarrow> c' < n \<Longrightarrow> r * n + c = r' * n + c' \<longleftrightarrow> r = r' \<and> c = (c'::nat)"
proof
  assume a: "c < n" "c' < n" and e: "r * n + c = r' * n + c'"
  have "(r * n + c) div n = r" "(r' * n + c') div n = r'" using a by simp_all
  then have "r = r'" using e by simp
  then show "r = r' \<and> c = c'" using e by simp
qed simp

lemma index_less: "r < k \<Longrightarrow> c < n \<Longrightarrow> r * n + c < k * (n::nat)"
proof -
  assume a: "r < k" "c < n"
  have "r * n + c < r * n + n" using a by simp
  also have "\<dots> = Suc r * n" by simp
  also have "\<dots> \<le> k * n" using a by (intro mult_le_mono1) simp
  finally show ?thesis .
qed

text \<open>A loop that overwrites the entries base + a, ..., base + b - 1 in turn.\<close>

lemma fold_update_length:
  "length (fold (\<lambda>c ys. ys[base + c := v c ys]) cs zs) = length zs"
  by (induction cs arbitrary: zs) simp_all

lemma fold_update_range:
  assumes dep: "\<And>c ys. a \<le> c \<Longrightarrow> c < b \<Longrightarrow> length ys = length xs \<Longrightarrow>
                  (\<And>i. i < length xs \<Longrightarrow> \<not> (base + a \<le> i \<and> i < base + c) \<Longrightarrow> ys ! i = xs ! i)
                  \<Longrightarrow> v c ys = w c"
    and i: "i < length xs"
  shows "fold (\<lambda>c ys. ys[base + c := v c ys]) [a..<b] xs ! i
         = (if base + a \<le> i \<and> i < base + b then w (i - base) else xs ! i)"
  using dep i
proof (induction b arbitrary: i)
  case 0
  then show ?case by auto
next
  case (Suc b)
  show ?case
  proof (cases "a \<le> b")
    case False
    then show ?thesis by auto
  next
    case True
    let ?ys = "fold (\<lambda>c ys. ys[base + c := v c ys]) [a..<b] xs"
    have IH: "?ys ! j = (if base + a \<le> j \<and> j < base + b then w (j - base) else xs ! j)"
      if j: "j < length xs" for j
    proof (rule Suc.IH [OF _ j])
      fix c ys
      assume "a \<le> c" "c < b" "length ys = length xs"
        "\<And>i. i < length xs \<Longrightarrow> \<not> (base + a \<le> i \<and> i < base + c) \<Longrightarrow> ys ! i = xs ! i"
      then show "v c ys = w c"
        using Suc.prems(1) [of c ys] by simp
    qed
    have len: "length ?ys = length xs" by (rule fold_update_length)
    have vb: "v b ?ys = w b"
      by (rule Suc.prems(1)) (use True len IH in auto)
    have eq: "fold (\<lambda>c ys. ys[base + c := v c ys]) [a..<Suc b] xs = ?ys[base + b := w b]"
      using True vb by simp
    show ?thesis
    proof (cases "i = base + b")
      case eqi: True
      then have "?ys[base + b := w b] ! i = w b"
        using len Suc.prems(2) by simp
      then show ?thesis unfolding eq using eqi True by simp
    next
      case neq: False
      then have "?ys[base + b := w b] ! i = ?ys ! i" by simp
      then show ?thesis unfolding eq using IH [OF Suc.prems(2)] neq by auto
    qed
  qed
qed

lemma in_row_range:
  assumes "c < n" "b \<le> (n::nat)"
  shows "(r2 * n + a \<le> r * n + c \<and> r * n + c < r2 * n + b) \<longleftrightarrow> (r = r2 \<and> a \<le> c \<and> c < b)"
proof
  assume h: "r2 * n + a \<le> r * n + c \<and> r * n + c < r2 * n + b"
  have "r = r2"
  proof (rule ccontr)
    assume "r \<noteq> r2"
    then consider "r < r2" | "r2 < r" by arith
    then show False
    proof cases
      case 1
      then have "r * n + c < r2 * n" using assms(1) by (rule index_less)
      with h show False by simp
    next
      case 2
      then have "Suc r2 * n \<le> r * n" by (intro mult_le_mono1) simp
      with h assms(2) show False by simp
    qed
  qed
  with h show "r = r2 \<and> a \<le> c \<and> c < b" by simp
qed simp

lemma fold_update_row:
  assumes dep: "\<And>c ys. a \<le> c \<Longrightarrow> c < b \<Longrightarrow> length ys = length xs \<Longrightarrow>
                  (\<And>r' c'. r' < mm \<Longrightarrow> c' < n \<Longrightarrow> \<not> (r' = r2 \<and> a \<le> c' \<and> c' < c)
                      \<Longrightarrow> ys ! (r' * n + c') = xs ! (r' * n + c'))
                  \<Longrightarrow> v c ys = w c"
    and len: "length xs = mm * n" and b: "b \<le> n" and r: "r < mm" and c: "c < n"
  shows "fold (\<lambda>c ys. ys[r2 * n + c := v c ys]) [a..<b] xs ! (r * n + c)
         = (if r = r2 \<and> a \<le> c \<and> c < b then w c else xs ! (r * n + c))"
proof -
  have i: "r * n + c < length xs" using r c len by (simp add: index_less)
  have "fold (\<lambda>c ys. ys[r2 * n + c := v c ys]) [a..<b] xs ! (r * n + c)
        = (if r2 * n + a \<le> r * n + c \<and> r * n + c < r2 * n + b then w (r * n + c - r2 * n)
           else xs ! (r * n + c))"
  proof (rule fold_update_range [OF _ i])
    fix c0 ys
    assume c0: "a \<le> c0" "c0 < b" and ly: "length ys = length xs"
      and agree: "\<And>i. i < length xs \<Longrightarrow> \<not> (r2 * n + a \<le> i \<and> i < r2 * n + c0) \<Longrightarrow> ys ! i = xs ! i"
    show "v c0 ys = w c0"
    proof (rule dep [OF c0 ly])
      fix r' c' assume h: "r' < mm" "c' < n" "\<not> (r' = r2 \<and> a \<le> c' \<and> c' < c0)"
      have "r' * n + c' < length xs" using h len by (simp add: index_less)
      moreover have "\<not> (r2 * n + a \<le> r' * n + c' \<and> r' * n + c' < r2 * n + c0)"
        using h in_row_range [of c' n c0 r2 a r'] c0 b by simp
      ultimately show "ys ! (r' * n + c') = xs ! (r' * n + c')" by (rule agree)
    qed
  qed
  moreover have "(r2 * n + a \<le> r * n + c \<and> r * n + c < r2 * n + b) \<longleftrightarrow> (r = r2 \<and> a \<le> c \<and> c < b)"
    using c b by (rule in_row_range)
  ultimately show ?thesis by auto
qed

text \<open>One row of the Gauss elimination, entry by entry.\<close>

lemma length_gauss_row: "length (gauss_row E n r0 r1 r2 xs) = length xs"
  by (simp add: gauss_row_def Let_def fold_update_length)

lemma gauss_row_nth:
  fixes xs :: "'a::field list"
  assumes len: "length xs = mm * n" and r0: "r0 < mm" and r2: "r2 < mm" and ne: "r0 \<noteq> r2"
    and r1: "r1 < n" and r: "r < mm" and c: "c < n"
  shows "gauss_row E n r0 r1 r2 xs ! (r * n + c)
         = (if r = r2
            then (if c \<le> r1 then 0
                  else xs ! (r2 * n + c) - xs ! (r2 * n + r1) / xs ! (r0 * n + r1) * xs ! (r0 * n + c))
            else xs ! (r * n + c))"
proof -
  let ?piv = "xs ! (r2 * n + r1) / xs ! (r0 * n + r1)"
  let ?step = "\<lambda>c ys. (let v = ys ! (r2 * n + c) - ?piv * ys ! (r0 * n + c)
                         in (if \<not> info_numeric E v then normal v else v))"
  let ?xs1 = "fold (\<lambda>c ys. ys[r2 * n + c := ?step c ys]) [r1 + 1..<n] xs"
  have first: "?xs1 ! (r' * n + c')
               = (if r' = r2 \<and> r1 + 1 \<le> c' \<and> c' < n then xs ! (r2 * n + c') - ?piv * xs ! (r0 * n + c')
                  else xs ! (r' * n + c'))"
    if "r' < mm" "c' < n" for r' c'
  proof (rule fold_update_row [OF _ len _ that])
    fix c0 ys
    assume c0: "r1 + 1 \<le> c0" "c0 < n"
      and agree: "\<And>r' c'. r' < mm \<Longrightarrow> c' < n \<Longrightarrow> \<not> (r' = r2 \<and> r1 + 1 \<le> c' \<and> c' < c0)
                     \<Longrightarrow> ys ! (r' * n + c') = xs ! (r' * n + c')"
    have "ys ! (r2 * n + c0) = xs ! (r2 * n + c0)" using agree [of r2 c0] r2 c0 by simp
    moreover have "ys ! (r0 * n + c0) = xs ! (r0 * n + c0)" using agree [of r0 c0] r0 c0 ne by simp
    ultimately show "?step c0 ys = xs ! (r2 * n + c0) - ?piv * xs ! (r0 * n + c0)"
      by (simp add: Let_def normal_def)
  qed simp
  let ?xs1' = "if \<not> is_zero (xs ! (r2 * n + r1)) then ?xs1 else xs"
  have len1: "length ?xs1' = mm * n" using len by (simp add: fold_update_length)
  have first': "?xs1' ! (r' * n + c')
               = (if r' = r2 \<and> r1 + 1 \<le> c' \<and> c' < n then xs ! (r2 * n + c') - ?piv * xs ! (r0 * n + c')
                  else xs ! (r' * n + c'))"
    if "r' < mm" "c' < n" for r' c'
    using first [OF that] by (auto simp: is_zero_def)
  have second: "fold (\<lambda>c ys. ys[r2 * n + c := 0]) [0..<r1 + 1] ?xs1' ! (r * n + c)
                = (if r = r2 \<and> 0 \<le> c \<and> c < r1 + 1 then 0 else ?xs1' ! (r * n + c))"
    by (rule fold_update_row [OF _ len1 _ r c]) (use r1 in simp_all)
  have "gauss_row E n r0 r1 r2 xs = fold (\<lambda>c ys. ys[r2 * n + c := 0]) [0..<r1 + 1] ?xs1'"
    by (simp only: gauss_row_def Let_def)
  then show ?thesis
    using second first' [OF r c] c by (auto simp: algebra_simps)
qed

section \<open>Rows of the vector after an elimination step\<close>

lemma length_gauss_rows: "length (fold (gauss_row E n r0 r1) rs xs) = length xs"
  by (induction rs arbitrary: xs) (simp_all add: length_gauss_row)

text \<open>All rows below the pivot row.\<close>

lemma gauss_rows_nth:
  fixes xs :: "'a::field list"
  assumes len: "length xs = mm * n" and r0: "r0 < mm" and r1: "r1 < n" and r: "r < mm" and c: "c < n"
    and k: "k \<le> mm"
  shows "fold (gauss_row E n r0 r1) [r0 + 1..<k] xs ! (r * n + c)
         = (if r0 < r \<and> r < k
            then (if c \<le> r1 then 0
                  else xs ! (r * n + c) - xs ! (r * n + r1) / xs ! (r0 * n + r1) * xs ! (r0 * n + c))
            else xs ! (r * n + c))"
  using k r c
proof (induction k arbitrary: r c)
  case 0
  then show ?case by simp
next
  case (Suc k)
  show ?case
  proof (cases "r0 + 1 \<le> k")
    case False
    then show ?thesis by auto
  next
    case True
    let ?ys = "fold (gauss_row E n r0 r1) [r0 + 1..<k] xs"
    have IH: "?ys ! (r' * n + c')
         = (if r0 < r' \<and> r' < k
            then (if c' \<le> r1 then 0
                  else xs ! (r' * n + c') - xs ! (r' * n + r1) / xs ! (r0 * n + r1) * xs ! (r0 * n + c'))
            else xs ! (r' * n + c'))" if "r' < mm" "c' < n" for r' c'
      using Suc.IH [OF _ that] Suc.prems(1) by simp
    have leny: "length ?ys = mm * n" using len by (simp add: length_gauss_rows)
    have kmm: "k < mm" using Suc.prems(1) by simp
    have "fold (gauss_row E n r0 r1) [r0 + 1..<Suc k] xs = gauss_row E n r0 r1 k ?ys"
      using True by simp
    moreover have "gauss_row E n r0 r1 k ?ys ! (r * n + c)
         = (if r = k
            then (if c \<le> r1 then 0
                  else ?ys ! (k * n + c) - ?ys ! (k * n + r1) / ?ys ! (r0 * n + r1) * ?ys ! (r0 * n + c))
            else ?ys ! (r * n + c))"
      by (rule gauss_row_nth [OF leny r0 kmm _ r1 Suc.prems(2,3)]) (use True in simp)
    ultimately show ?thesis
      using IH [OF Suc.prems(2,3)] IH [OF kmm Suc.prems(3)] IH [OF kmm r1] IH [OF r0 r1] IH [OF r0 Suc.prems(3)]
      by (auto simp: less_Suc_eq)
  qed
qed

text \<open>The rows swapped by the pivot search.\<close>

lemma length_swap_fold:
  "length (fold (\<lambda>c xs. xs[k * n + c := xs ! (ro * n + c), ro * n + c := xs ! (k * n + c)]) cs xs) = length xs"
  by (induction cs arbitrary: xs) simp_all

lemma swap_fold_nth:
  assumes len: "length xs = mm * n" and k: "k < mm" and ro: "ro < mm" and ne: "k \<noteq> ro"
    and r: "r < mm" and c: "c < n" and j: "j \<le> n"
  shows "fold (\<lambda>c xs. xs[k * n + c := xs ! (ro * n + c), ro * n + c := xs ! (k * n + c)]) [0..<j] xs ! (r * n + c)
         = (if c < j then (if r = k then xs ! (ro * n + c) else if r = ro then xs ! (k * n + c) else xs ! (r * n + c))
            else xs ! (r * n + c))"
  using j r c
proof (induction j arbitrary: r c)
  case 0
  then show ?case by simp
next
  case (Suc j)
  let ?ys = "fold (\<lambda>c xs. xs[k * n + c := xs ! (ro * n + c), ro * n + c := xs ! (k * n + c)]) [0..<j] xs"
  have IH: "?ys ! (r' * n + c')
         = (if c' < j then (if r' = k then xs ! (ro * n + c') else if r' = ro then xs ! (k * n + c') else xs ! (r' * n + c'))
            else xs ! (r' * n + c'))" if "r' < mm" "c' < n" for r' c'
    using Suc.IH [OF _ that] Suc.prems(1) by simp
  have leny: "length ?ys = mm * n" using len by (simp add: length_swap_fold)
  have jn: "j < n" using Suc.prems(1) by simp
  have inr: "r' * n + c' < length ?ys" if "r' < mm" "c' < n" for r' c'
    using that leny by (simp add: index_less)
  have eq: "(r' * n + j = r * n + c) \<longleftrightarrow> (r' = r \<and> j = c)" for r'
    using index_eq_iff [of j n c r' r] Suc.prems(3) jn by simp
  have step: "fold (\<lambda>c xs. xs[k * n + c := xs ! (ro * n + c), ro * n + c := xs ! (k * n + c)]) [0..<Suc j] xs
        = ?ys[k * n + j := ?ys ! (ro * n + j), ro * n + j := ?ys ! (k * n + j)]"
    by simp
  show ?case
  proof (cases "c = j")
    case False
    then have "?ys[k * n + j := ?ys ! (ro * n + j), ro * n + j := ?ys ! (k * n + j)] ! (r * n + c)
               = ?ys ! (r * n + c)"
      using eq by simp
    then show ?thesis unfolding step using IH [OF Suc.prems(2,3)] False by (simp add: less_Suc_eq)
  next
    case True
    have yk: "?ys ! (k * n + j) = xs ! (k * n + j)" using IH [OF k jn] by simp
    have yro: "?ys ! (ro * n + j) = xs ! (ro * n + j)" using IH [OF ro jn] by simp
    have yr: "?ys ! (r * n + j) = xs ! (r * n + j)" using IH [OF Suc.prems(2) jn] by simp
    consider "r = ro" | "r = k" | "r \<noteq> ro" "r \<noteq> k" by blast
    then have "?ys[k * n + j := ?ys ! (ro * n + j), ro * n + j := ?ys ! (k * n + j)] ! (r * n + c)
               = (if r = k then xs ! (ro * n + c) else if r = ro then xs ! (k * n + c) else xs ! (r * n + c))"
    proof cases
      case 1
      then show ?thesis using True ne yk inr [OF ro jn] by simp
    next
      case 2
      then show ?thesis using True ne yro inr [OF k jn] eq [of ro] by simp
    next
      case 3
      then show ?thesis using True yr eq [of ro] eq [of k] by simp
    qed
    then show ?thesis unfolding step using True by simp
  qed
qed

lemma swap_rows_nth:
  assumes "length (m M) = mm * col M" "k < mm" "ro < mm" "k \<noteq> ro" "r < mm" "c < col M"
  shows "m (swap_rows M k ro) ! (r * col M + c)
         = (if r = k then m M ! (ro * col M + c) else if r = ro then m M ! (k * col M + c)
            else m M ! (r * col M + c))"
  using swap_fold_nth [OF assms, of "col M"] assms(6) by (simp add: swap_rows_def)

lemma swap_rows_shape [simp]:
  "row (swap_rows M k ro) = row M" "col (swap_rows M k ro) = col M"
  "length (m (swap_rows M k ro)) = length (m M)"
  by (simp_all add: swap_rows_def length_swap_fold)

text \<open>The symbolic pivot search.\<close>

lemma pivot_symbolic_scan_props:
  assumes "k \<le> row M"
  shows "k \<le> pivot_symbolic_scan M co k \<and> pivot_symbolic_scan M co k \<le> row M
       \<and> (\<forall>r. k \<le> r \<and> r < pivot_symbolic_scan M co k \<longrightarrow> m M ! (r * col M + co) = 0)
       \<and> (pivot_symbolic_scan M co k < row M \<longrightarrow> m M ! (pivot_symbolic_scan M co k * col M + co) \<noteq> 0)"
  using assms
proof (induction M co k rule: pivot_symbolic_scan.induct)
  case (1 M co k)
  show ?case
  proof (cases "k < row M \<and> is_zero (expand (m M ! (k * col M + co)))")
    case True
    then have eq: "pivot_symbolic_scan M co k = pivot_symbolic_scan M co (Suc k)"
      by (subst pivot_symbolic_scan.simps) simp
    have z: "m M ! (k * col M + co) = 0" using True by (simp add: is_zero_def expand_def)
    have IH: "Suc k \<le> pivot_symbolic_scan M co (Suc k) \<and> pivot_symbolic_scan M co (Suc k) \<le> row M
       \<and> (\<forall>r. Suc k \<le> r \<and> r < pivot_symbolic_scan M co (Suc k) \<longrightarrow> m M ! (r * col M + co) = 0)
       \<and> (pivot_symbolic_scan M co (Suc k) < row M \<longrightarrow> m M ! (pivot_symbolic_scan M co (Suc k) * col M + co) \<noteq> 0)"
      using "1.IH" True by simp
    have "m M ! (r * col M + co) = 0" if "k \<le> r" "r < pivot_symbolic_scan M co (Suc k)" for r
    proof (cases "r = k")
      case True
      then show ?thesis using z by simp
    next
      case False
      then show ?thesis using that IH by simp
    qed
    then show ?thesis unfolding eq using IH by auto
  next
    case False
    then have eq: "pivot_symbolic_scan M co k = k"
      by (subst pivot_symbolic_scan.simps) (simp only: if_False)
    show ?thesis unfolding eq using False "1.prems" by (auto simp: is_zero_def expand_def)
  qed
qed

lemma pivot_symbolic_cases:
  assumes "ro < row M"
  obtains (singular) "pivot M ro co True = (- 1, M)"
      "\<And>r. ro \<le> r \<Longrightarrow> r < row M \<Longrightarrow> m M ! (r * col M + co) = 0"
    | (same) "pivot M ro co True = (0, M)" "m M ! (ro * col M + co) \<noteq> 0"
    | (swap) k where "pivot M ro co True = (int k, swap_rows M k ro)" "ro < k" "k < row M"
      "m M ! (k * col M + co) \<noteq> 0"
proof -
  let ?k = "pivot_symbolic_scan M co ro"
  have props: "ro \<le> ?k" "?k \<le> row M"
    "\<And>r. ro \<le> r \<Longrightarrow> r < ?k \<Longrightarrow> m M ! (r * col M + co) = 0"
    "?k < row M \<Longrightarrow> m M ! (?k * col M + co) \<noteq> 0"
    using pivot_symbolic_scan_props [of ro M co] assms by auto
  consider "?k = row M" | "?k = ro" | "?k \<noteq> row M" "?k \<noteq> ro" by blast
  then show thesis
  proof cases
    case 1
    then have "pivot M ro co True = (- 1, M)" by (simp add: pivot_def)
    then show ?thesis using props(3) 1 by (intro singular) auto
  next
    case 2
    then have "pivot M ro co True = (0, M)" using assms by (simp add: pivot_def)
    then show ?thesis using props(4) 2 assms by (intro same) auto
  next
    case 3
    then have "pivot M ro co True = (int ?k, swap_rows M ?k ro)" by (simp add: pivot_def Let_def)
    then show ?thesis using props 3 by (intro swap [of ?k]) auto
  qed
qed

section \<open>One step of the gauss elimination\<close>

lemma rowf_eqI: "(\<And>c. c < n \<Longrightarrow> xs ! (r * n + c) = ys ! (r' * n + c)) \<Longrightarrow> rowf xs n r = rowf ys n r'"
  by (auto simp: rowf_def fun_eq_iff)

lemma length_rows_from [simp]: "length (rows_from xs n k) = n - k"
  by (simp add: rows_from_def)

lemma rows_from_nth: "i < n - k \<Longrightarrow> rows_from xs n k ! i = rowf xs n (k + i)"
  by (simp add: rows_from_def)

lemma rows_from_Cons: "k < n \<Longrightarrow> rows_from xs n k = rowf xs n k # rows_from xs n (Suc k)"
  by (simp add: rows_from_def upt_conv_Cons)

lemma fold_mult_prod:
  fixes x :: "'a::comm_monoid_mult"
  shows "fold (\<lambda>d acc. acc * f d) [a..<b] x = x * (\<Prod>d = a..<b. f d)"
proof (induction b)
  case 0
  then show ?case by simp
next
  case (Suc b)
  show ?case
  proof (cases "a \<le> b")
    case True
    then show ?thesis using Suc by (simp add: prod.atLeastLessThan_Suc mult.assoc)
  next
    case False
    then show ?thesis by simp
  qed
qed

text \<open>The deletion of the rest of the pivot row in determinant mode.\<close>

lemma zero_row_nth:
  assumes "length xs = mm * n" "r < mm" "c < n"
  shows "fold (\<lambda>c ys. ys[r0 * n + c := 0]) [a..<n] xs ! (r * n + c)
         = (if r = r0 \<and> a \<le> c \<and> c < n then 0 else xs ! (r * n + c))"
  by (rule fold_update_row [OF _ assms(1) _ assms(2,3)]) simp_all

text \<open>One step of the elimination keeps the minor, up to the pivot.\<close>

lemma gauss_step_minor:
  fixes xs1 :: "'a::field list"
  assumes len: "length xs1 = n * n" and k: "Suc k < n" and p: "xs1 ! (k * n + k) \<noteq> 0"
    and xs3: "\<And>r c. k < r \<Longrightarrow> r < n \<Longrightarrow> k < c \<Longrightarrow> c < n \<Longrightarrow>
                xs3 ! (r * n + c) = a * (xs1 ! (r * n + c) - xs1 ! (r * n + k) / xs1 ! (k * n + k) * xs1 ! (k * n + c))"
  shows "a ^ (n - Suc k) * minor_det k (rows_from xs1 n k)
         = xs1 ! (k * n + k) * minor_det (Suc k) (rows_from xs3 n (Suc k))"
proof -
  let ?r0 = "rowf xs1 n k"
  let ?g = "\<lambda>f j. f j - (f k / ?r0 k) * ?r0 j"
  have kn: "k < n" using k by simp
  have r0k: "?r0 k = xs1 ! (k * n + k)" using kn by (simp add: rowf_def)
  define L where "L = map ?g (rows_from xs1 n (Suc k))"
  have lenL: "length L = n - Suc k" by (simp add: L_def)
  have 1: "minor_det k (rows_from xs1 n k) = xs1 ! (k * n + k) * minor_det (Suc k) L"
    unfolding rows_from_Cons [OF kn] L_def r0k [symmetric]
    by (rule minor_det_eliminate) (use p r0k in simp)
  have 2: "minor_det (Suc k) (rows_from xs3 n (Suc k)) = minor_det (Suc k) (map (\<lambda>f j. a * f j) L)"
  proof (rule minor_det_cong)
    fix i j
    assume i: "i < length (rows_from xs3 n (Suc k))" and j: "Suc k \<le> j" "j < Suc k + length (rows_from xs3 n (Suc k))"
    have i': "i < n - Suc k" using i by simp
    have jn: "j < n" using j k by simp
    have "xs3 ! ((Suc k + i) * n + j)
          = a * (xs1 ! ((Suc k + i) * n + j) - xs1 ! ((Suc k + i) * n + k) / xs1 ! (k * n + k) * xs1 ! (k * n + j))"
      by (rule xs3) (use i' j jn in auto)
    then show "(rows_from xs3 n (Suc k) ! i) j = (map (\<lambda>f j. a * f j) L ! i) j"
      using i' jn kn by (simp add: L_def rows_from_nth rowf_def)
  qed (simp add: lenL)
  have 3: "minor_det (Suc k) (map (\<lambda>f j. a * f j) L) = a ^ (n - Suc k) * minor_det (Suc k) L"
    using minor_det_scale [of "Suc k" a L] lenL by simp
  show ?thesis unfolding 1 2 3 by (simp add: mult.left_commute)
qed

section \<open>The gauss elimination and the determinant\<close>

lemma swap_rows_minor:
  fixes M :: "'a::comm_ring_1 matrix"
  assumes len: "length (m M) = n * n" and col: "col M = n" and k: "k < p" and p: "p < n"
  shows "minor_det k (rows_from (m (swap_rows M p k)) n k) = - minor_det k (rows_from (m M) n k)"
proof -
  let ?R = "rows_from (m M) n k"
  have kn: "k < n" using k p by simp
  have nth: "m (swap_rows M p k) ! (r * n + c)
             = (if r = p then m M ! (k * n + c) else if r = k then m M ! (p * n + c) else m M ! (r * n + c))"
    if "r < n" "c < n" for r c
    using swap_rows_nth [of M n p k r c] len col k p kn that by simp
  have "rows_from (m (swap_rows M p k)) n k = ?R[0 := ?R ! (p - k), p - k := ?R ! 0]"
  proof (rule nth_equalityI)
    fix i assume "i < length (rows_from (m (swap_rows M p k)) n k)"
    then have i: "i < n - k" by simp
    have "rowf (m (swap_rows M p k)) n (k + i)
          = (if k + i = p then rowf (m M) n k else if i = 0 then rowf (m M) n p else rowf (m M) n (k + i))"
      using nth [of "k + i"] i by (auto intro!: rowf_eqI)
    then show "rows_from (m (swap_rows M p k)) n k ! i = ?R[0 := ?R ! (p - k), p - k := ?R ! 0] ! i"
      using i k p by (auto simp: rows_from_nth nth_list_update)
  qed simp
  moreover have "minor_det k (?R[0 := ?R ! (p - k), p - k := ?R ! 0]) = - minor_det k ?R"
    by (rule minor_det_swap) (use k p in auto)
  ultimately show ?thesis by simp
qed

lemma rows_from_last:
  "Suc k = n \<Longrightarrow> minor_det k (rows_from xs n k) = xs ! (k * n + k)"
  by (auto simp: rows_from_def rowf_def)

text \<open>
  The loop of the Gauss elimination in determinant mode, from pivot \<open>k\<close> on: the sign
  times the diagonal from \<open>k\<close> on is the minor of the rows and columns from \<open>k\<close> on, and
  the diagonal above \<open>k\<close> is left alone.
\<close>

lemma gauss_loop_minor:
  fixes M :: "'a::{field,abs,ord} matrix"
  assumes "length (m M) = n * n" "row M = n" "col M = n" "k < n"
  shows "case gauss_loop E True n n k k sign M of
           (s, M') \<Rightarrow>
             of_int s * (\<Prod>d = k..<n. m M' ! (d * n + d)) = of_int sign * minor_det k (rows_from (m M) n k)
             \<and> (\<forall>d<k. m M' ! (d * n + d) = m M ! (d * n + d))"
  using assms
proof (induction "n - k" arbitrary: k sign M)
  case 0
  then show ?case by simp
next
  case (Suc j)
  note len = Suc.prems(1) and rw = Suc.prems(2) and cl = Suc.prems(3) and kn = Suc.prems(4)
  show ?case
  proof (cases "k < n - 1")
    case False
    then have k: "k = n - 1" using kn by simp
    have "gauss_loop E True n n k k sign M = (sign, M)"
      using False by (subst gauss_loop.simps) (simp add: unsigned_pred_less [OF kn])
    moreover have "{k..<n} = {k}" using k kn by auto
    moreover have "Suc k = n" using k kn by simp
    ultimately show ?thesis
      using rows_from_last [of k n "m M"] by simp
  next
    case True
    have kr: "k < row M" using kn rw by simp
    have step: "case gauss_loop E True n n (Suc k) (Suc k) sign2 M3 of
           (s, M') \<Rightarrow>
             of_int s * (\<Prod>d = Suc k..<n. m M' ! (d * n + d))
               = of_int sign2 * minor_det (Suc k) (rows_from (m M3) n (Suc k))
             \<and> (\<forall>d<Suc k. m M' ! (d * n + d) = m M3 ! (d * n + d))"
      if "length (m M3) = n * n" "row M3 = n" "col M3 = n" for sign2 M3
      by (rule Suc.hyps(1)) (use Suc.hyps(2) True that in auto)
    have prod: "(\<Prod>d = k..<n. f d) = f k * (\<Prod>d = Suc k..<n. f d)" for f :: "nat \<Rightarrow> 'a"
      using kn by (simp add: prod.atLeast_Suc_lessThan)
    have continue: "case gauss_loop E True n n k k sign M of
           (s, M') \<Rightarrow>
             of_int s * (\<Prod>d = k..<n. m M' ! (d * n + d)) = of_int sign * minor_det k (rows_from (m M) n k)
             \<and> (\<forall>d<k. m M' ! (d * n + d) = m M ! (d * n + d))"
      if piv: "pivot M k k True = (indx, M1)" and indx: "0 \<le> indx"
        and M1: "length (m M1) = n * n" "row M1 = n" "col M1 = n"
        and pne: "m M1 ! (k * n + k) \<noteq> 0"
        and above: "\<And>d. d < k \<Longrightarrow> m M1 ! (d * n + d) = m M ! (d * n + d)"
        and minor: "of_int (if indx > 0 then - sign else sign) * minor_det k (rows_from (m M1) n k)
                    = of_int sign * minor_det k (rows_from (m M) n k)"
      for indx M1
    proof -
      let ?sign2 = "if indx > 0 then - sign else sign"
      let ?xs2 = "fold (gauss_row E n k k) [k + 1..<n] (m M1)"
      let ?xs3 = "fold (\<lambda>c ys. ys[k * n + c := 0]) [k + 1..<n] ?xs2"
      let ?M3 = "M1\<lparr>m := ?xs3\<rparr>"
      have len2: "length ?xs2 = n * n" using M1 by (simp add: length_gauss_rows)
      have len3: "length ?xs3 = n * n" using len2 by (simp add: fold_update_length)
      have xs2: "?xs2 ! (r * n + c)
         = (if k < r \<and> r < n
            then (if c \<le> k then 0
                  else m M1 ! (r * n + c) - m M1 ! (r * n + k) / m M1 ! (k * n + k) * m M1 ! (k * n + c))
            else m M1 ! (r * n + c))" if "r < n" "c < n" for r c
        by (rule gauss_rows_nth [OF M1(1) kn kn that]) simp
      have xs3: "?xs3 ! (r * n + c) = (if r = k \<and> k + 1 \<le> c \<and> c < n then 0 else ?xs2 ! (r * n + c))"
        if "r < n" "c < n" for r c
        by (rule zero_row_nth [OF len2 that])
      have loop: "gauss_loop E True n n k k sign M = gauss_loop E True n n (Suc k) (Suc k) ?sign2 ?M3"
        using True kn piv indx by (subst gauss_loop.simps) (simp add: unsigned_pred_less [OF kn] Let_def)
      obtain s M' where res: "gauss_loop E True n n (Suc k) (Suc k) ?sign2 ?M3 = (s, M')"
        by (cases "gauss_loop E True n n (Suc k) (Suc k) ?sign2 ?M3")
      have IH: "of_int s * (\<Prod>d = Suc k..<n. m M' ! (d * n + d))
               = of_int ?sign2 * minor_det (Suc k) (rows_from ?xs3 n (Suc k))"
        "\<And>d. d < Suc k \<Longrightarrow> m M' ! (d * n + d) = ?xs3 ! (d * n + d)"
        using step [of ?M3 ?sign2] len3 M1 res by auto
      have diag: "?xs3 ! (d * n + d) = m M1 ! (d * n + d)" if "d \<le> k" for d
        using xs3 [of d d] xs2 [of d d] that kn by simp
      have "1 ^ (n - Suc k) * minor_det k (rows_from (m M1) n k)
            = m M1 ! (k * n + k) * minor_det (Suc k) (rows_from ?xs3 n (Suc k))"
      proof (rule gauss_step_minor [OF M1(1) _ pne])
        show "Suc k < n" using True by simp
      next
        fix r c assume "k < r" "r < n" "k < c" "c < n"
        then show "?xs3 ! (r * n + c)
                   = 1 * (m M1 ! (r * n + c) - m M1 ! (r * n + k) / m M1 ! (k * n + k) * m M1 ! (k * n + c))"
          using xs3 [of r c] xs2 [of r c] by simp
      qed
      then have elim: "minor_det k (rows_from (m M1) n k)
            = m M1 ! (k * n + k) * minor_det (Suc k) (rows_from ?xs3 n (Suc k))"
        by simp
      have "of_int s * (\<Prod>d = k..<n. m M' ! (d * n + d))
            = m M' ! (k * n + k) * (of_int s * (\<Prod>d = Suc k..<n. m M' ! (d * n + d)))"
        by (simp add: prod)
      also have "\<dots> = m M1 ! (k * n + k) * (of_int ?sign2 * minor_det (Suc k) (rows_from ?xs3 n (Suc k)))"
        using IH(1) IH(2) [of k] diag [of k] by simp
      also have "\<dots> = of_int ?sign2 * minor_det k (rows_from (m M1) n k)"
        unfolding elim by (simp add: mult.left_commute)
      also have "\<dots> = of_int sign * minor_det k (rows_from (m M) n k)"
        by (rule minor)
      finally have 1: "of_int s * (\<Prod>d = k..<n. m M' ! (d * n + d))
                       = of_int sign * minor_det k (rows_from (m M) n k)" .
      have 2: "m M' ! (d * n + d) = m M ! (d * n + d)" if "d < k" for d
        using IH(2) [of d] diag [of d] above [of d] that by simp
      show ?thesis unfolding loop res using 1 2 by simp
    qed
    from kr show ?thesis
    proof (cases rule: pivot_symbolic_cases [of k M k])
      case singular
      have "gauss_loop E True n n k k sign M = (0, M)"
        using True kn singular(1) by (subst gauss_loop.simps) (simp add: unsigned_pred_less [OF kn])
      moreover have "minor_det k (rows_from (m M) n k) = 0"
      proof (rule minor_det_zero_column)
        show "rows_from (m M) n k \<noteq> []" using kn by (simp add: rows_from_def)
      next
        fix i assume "i < length (rows_from (m M) n k)"
        then have i: "i < n - k" by simp
        then have "m M ! ((k + i) * col M + k) = 0"
          using singular(2) [of "k + i"] rw by simp
        then show "(rows_from (m M) n k ! i) k = 0"
          using i kn cl by (simp add: rows_from_nth rowf_def)
      qed
      ultimately show ?thesis by simp
    next
      case same
      show ?thesis
        by (rule continue [OF same(1)]) (use same(2) len rw cl in simp_all)
    next
      case (swap p)
      have pn: "p < n" using swap(3) rw by simp
      have nth: "m (swap_rows M p k) ! (r * n + c)
             = (if r = p then m M ! (k * n + c) else if r = k then m M ! (p * n + c) else m M ! (r * n + c))"
        if "r < n" "c < n" for r c
        using swap_rows_nth [of M n p k r c] len cl swap(2) pn kn that by simp
      show ?thesis
      proof (rule continue [OF swap(1)])
        show "m (swap_rows M p k) ! (k * n + k) \<noteq> 0"
          using nth [of k k] kn swap(2,4) cl by simp
        show "m (swap_rows M p k) ! (d * n + d) = m M ! (d * n + d)" if "d < k" for d
          using nth [of d d] that kn swap(2) by simp
        show "of_int (if 0 < int p then - sign else sign) * minor_det k (rows_from (m (swap_rows M p k)) n k)
              = of_int sign * minor_det k (rows_from (m M) n k)"
          using swap_rows_minor [OF len cl swap(2) pn] swap(2) by simp
      qed (use len rw cl in simp_all)
    qed
  qed
qed

section \<open>Numerators and denominators\<close>

text \<open>Two vectors updated side by side are one vector of pairs.\<close>

lemma fold_pair_zip:
  assumes "length ns = length ds"
  shows "fold (\<lambda>c (ns, ds). (ns[i c := F c ns ds], ds[i c := G c ns ds])) cs (ns, ds)
         = (map fst (fold (\<lambda>c zs. zs[i c := (F c (map fst zs) (map snd zs), G c (map fst zs) (map snd zs))])
                          cs (zip ns ds)),
            map snd (fold (\<lambda>c zs. zs[i c := (F c (map fst zs) (map snd zs), G c (map fst zs) (map snd zs))])
                          cs (zip ns ds)))"
  using assms
proof (induction cs arbitrary: ns ds)
  case Nil
  then show ?case by simp
next
  case (Cons c cs)
  have "zip (ns[i c := F c ns ds]) (ds[i c := G c ns ds]) = (zip ns ds)[i c := (F c ns ds, G c ns ds)]"
    by (simp add: zip_update)
  then show ?case
    using Cons.IH [of "ns[i c := F c ns ds]" "ds[i c := G c ns ds]"] Cons.prems
    by simp
qed

lemma fold_pair_split:
  "fold (\<lambda>c (ns, ds). (f c ns, g c ds)) cs (ns, ds) = (fold f cs ns, fold g cs ds)"
  by (induction cs arbitrary: ns ds) simp_all

text \<open>The swap of two rows on the columns from a on.\<close>

lemma swap_fold_range_nth:
  assumes len: "length xs = mm * n" and k: "k < mm" and ro: "ro < mm" and ne: "k \<noteq> ro"
    and r: "r < mm" and c: "c < n" and j: "j \<le> n"
  shows "fold (\<lambda>c xs. xs[k * n + c := xs ! (ro * n + c), ro * n + c := xs ! (k * n + c)]) [a..<j] xs ! (r * n + c)
         = (if a \<le> c \<and> c < j
            then (if r = k then xs ! (ro * n + c) else if r = ro then xs ! (k * n + c) else xs ! (r * n + c))
            else xs ! (r * n + c))"
  using j r c
proof (induction j arbitrary: r c)
  case 0
  then show ?case by simp
next
  case (Suc j)
  show ?case
  proof (cases "a \<le> j")
    case False
    then show ?thesis by auto
  next
    case aj: True
    let ?ys = "fold (\<lambda>c xs. xs[k * n + c := xs ! (ro * n + c), ro * n + c := xs ! (k * n + c)]) [a..<j] xs"
    have IH: "?ys ! (r' * n + c')
         = (if a \<le> c' \<and> c' < j
            then (if r' = k then xs ! (ro * n + c') else if r' = ro then xs ! (k * n + c') else xs ! (r' * n + c'))
            else xs ! (r' * n + c'))" if "r' < mm" "c' < n" for r' c'
      using Suc.IH [OF _ that] Suc.prems(1) by simp
    have leny: "length ?ys = mm * n" using len by (simp add: length_swap_fold)
    have jn: "j < n" using Suc.prems(1) by simp
    have inr: "r' * n + c' < length ?ys" if "r' < mm" "c' < n" for r' c'
      using that leny by (simp add: index_less)
    have eq: "(r' * n + j = r * n + c) \<longleftrightarrow> (r' = r \<and> j = c)" for r'
      using index_eq_iff [of j n c r' r] Suc.prems(3) jn by simp
    have step: "fold (\<lambda>c xs. xs[k * n + c := xs ! (ro * n + c), ro * n + c := xs ! (k * n + c)]) [a..<Suc j] xs
          = ?ys[k * n + j := ?ys ! (ro * n + j), ro * n + j := ?ys ! (k * n + j)]"
      using aj by simp
    show ?thesis
    proof (cases "c = j")
      case False
      then have "?ys[k * n + j := ?ys ! (ro * n + j), ro * n + j := ?ys ! (k * n + j)] ! (r * n + c)
                 = ?ys ! (r * n + c)"
        using eq by simp
      then show ?thesis unfolding step using IH [OF Suc.prems(2,3)] False by (simp add: less_Suc_eq)
    next
      case True
      have yk: "?ys ! (k * n + j) = xs ! (k * n + j)" using IH [OF k jn] by simp
      have yro: "?ys ! (ro * n + j) = xs ! (ro * n + j)" using IH [OF ro jn] by simp
      have yr: "?ys ! (r * n + j) = xs ! (r * n + j)" using IH [OF Suc.prems(2) jn] by simp
      consider "r = ro" | "r = k" | "r \<noteq> ro" "r \<noteq> k" by blast
      then have "?ys[k * n + j := ?ys ! (ro * n + j), ro * n + j := ?ys ! (k * n + j)] ! (r * n + c)
                 = (if r = k then xs ! (ro * n + c) else if r = ro then xs ! (k * n + c) else xs ! (r * n + c))"
      proof cases
        case 1
        then show ?thesis using True ne yk inr [OF ro jn] by simp
      next
        case 2
        then show ?thesis using True ne yro inr [OF k jn] eq [of ro] by simp
      next
        case 3
        then show ?thesis using True yr eq [of ro] eq [of k] by simp
      qed
      then show ?thesis unfolding step using True aj by simp
    qed
  qed
qed

text \<open>The values of the fractions kept as numerators and denominators.\<close>

lemma length_fractions [simp]: "length (fractions ns ds) = min (length ns) (length ds)"
  by (simp add: fractions_def)

lemma fractions_nth: "i < length ns \<Longrightarrow> i < length ds \<Longrightarrow> fractions ns ds ! i = ns ! i / ds ! i"
  by (simp add: fractions_def)

text \<open>One row of the fraction-free elimination, entry by entry.\<close>

lemma fraction_free_row_nth:
  fixes ns ds :: "'a::field list"
  assumes lenn: "length ns = mm * n" and lend: "length ds = mm * n"
    and r0: "r0 < mm" and r2: "r2 < mm" and ne: "r0 \<noteq> r2" and r1: "r1 < n" and r: "r < mm" and c: "c < n"
  shows "length (fst (fraction_free_row n r0 r1 dn dd r2 (ns, ds))) = mm * n"
    and "length (snd (fraction_free_row n r0 r1 dn dd r2 (ns, ds))) = mm * n"
    and "fst (fraction_free_row n r0 r1 dn dd r2 (ns, ds)) ! (r * n + c)
         = (if r = r2
            then (if c \<le> r1 then 0
                  else (ns ! (r0 * n + r1) * ns ! (r2 * n + c) * ds ! (r2 * n + r1) * ds ! (r0 * n + c)
                        - ns ! (r2 * n + r1) * ns ! (r0 * n + c) * ds ! (r0 * n + r1) * ds ! (r2 * n + c)) / dn)
            else ns ! (r * n + c))"
    and "snd (fraction_free_row n r0 r1 dn dd r2 (ns, ds)) ! (r * n + c)
         = (if r = r2 \<and> r1 < c
            then ds ! (r2 * n + r1) * ds ! (r0 * n + c) * ds ! (r0 * n + r1) * ds ! (r2 * n + c) / dd
            else ds ! (r * n + c))"
proof -
  let ?F = "\<lambda>c (ns::'a list) (ds::'a list).
              divide_exact (expand (ns ! (r0 * n + r1) * ns ! (r2 * n + c) * ds ! (r2 * n + r1) * ds ! (r0 * n + c)
                                    - ns ! (r2 * n + r1) * ns ! (r0 * n + c) * ds ! (r0 * n + r1) * ds ! (r2 * n + c))) dn"
  let ?G = "\<lambda>c (ns::'a list) (ds::'a list).
              divide_exact (expand (ds ! (r2 * n + r1) * ds ! (r0 * n + c) * ds ! (r0 * n + r1) * ds ! (r2 * n + c))) dd"
  let ?Z = "fold (\<lambda>c zs. zs[r2 * n + c := (?F c (map fst zs) (map snd zs), ?G c (map fst zs) (map snd zs))])
                 [r1 + 1..<n] (zip ns ds)"
  have lenz: "length (zip ns ds) = mm * n" using lenn lend by simp
  have lenZ: "length ?Z = mm * n" using lenz by (simp add: fold_update_length)
  have inner: "fold (\<lambda>c (ns, ds). (ns[r2 * n + c := ?F c ns ds], ds[r2 * n + c := ?G c ns ds])) [r1 + 1..<n] (ns, ds)
               = (map fst ?Z, map snd ?Z)"
    by (rule fold_pair_zip) (use lenn lend in simp)
  have Z: "?Z ! (r' * n + c')
           = (if r' = r2 \<and> r1 + 1 \<le> c' \<and> c' < n then (?F c' ns ds, ?G c' ns ds) else zip ns ds ! (r' * n + c'))"
    if "r' < mm" "c' < n" for r' c'
  proof (rule fold_update_row [OF _ lenz _ that])
    fix c0 and zs :: "('a \<times> 'a) list"
    assume c0: "r1 + 1 \<le> c0" "c0 < n" and lz: "length zs = length (zip ns ds)"
      and agree: "\<And>r' c'. r' < mm \<Longrightarrow> c' < n \<Longrightarrow> \<not> (r' = r2 \<and> r1 + 1 \<le> c' \<and> c' < c0)
                     \<Longrightarrow> zs ! (r' * n + c') = zip ns ds ! (r' * n + c')"
    have rd: "map fst zs ! (r' * n + c') = ns ! (r' * n + c') \<and> map snd zs ! (r' * n + c') = ds ! (r' * n + c')"
      if "r' < mm" "c' < n" "\<not> (r' = r2 \<and> r1 + 1 \<le> c' \<and> c' < c0)" for r' c'
    proof -
      have "r' * n + c' < mm * n" using that by (simp add: index_less)
      then show ?thesis using agree [OF that] lz lenz lenn lend by simp
    qed
    show "(?F c0 (map fst zs) (map snd zs), ?G c0 (map fst zs) (map snd zs)) = (?F c0 ns ds, ?G c0 ns ds)"
      using rd [of r0 r1] rd [of r2 c0] rd [of r2 r1] rd [of r0 c0] r0 r2 r1 c0 ne by simp
  qed simp
  let ?ns1 = "map fst ?Z"
  have lenn1: "length ?ns1 = mm * n" using lenZ by simp
  have zero: "fold (\<lambda>c ys. ys[r2 * n + c := 0]) [0..<r1 + 1] ?ns1 ! (r * n + c)
              = (if r = r2 \<and> 0 \<le> c \<and> c < r1 + 1 then 0 else ?ns1 ! (r * n + c))"
    by (rule fold_update_row [OF _ lenn1 _ r c]) (use r1 in simp_all)
  have res: "fraction_free_row n r0 r1 dn dd r2 (ns, ds)
             = (fold (\<lambda>c ys. ys[r2 * n + c := 0]) [0..<r1 + 1] ?ns1, map snd ?Z)"
    unfolding fraction_free_row_def Let_def inner by simp
  have idx: "r * n + c < mm * n" using r c by (simp add: index_less)
  show "length (fst (fraction_free_row n r0 r1 dn dd r2 (ns, ds))) = mm * n"
    unfolding res using lenn1 by (simp add: fold_update_length)
  show "length (snd (fraction_free_row n r0 r1 dn dd r2 (ns, ds))) = mm * n"
    unfolding res using lenZ by simp
  show "fst (fraction_free_row n r0 r1 dn dd r2 (ns, ds)) ! (r * n + c)
         = (if r = r2
            then (if c \<le> r1 then 0
                  else (ns ! (r0 * n + r1) * ns ! (r2 * n + c) * ds ! (r2 * n + r1) * ds ! (r0 * n + c)
                        - ns ! (r2 * n + r1) * ns ! (r0 * n + c) * ds ! (r0 * n + r1) * ds ! (r2 * n + c)) / dn)
            else ns ! (r * n + c))"
    unfolding res using zero Z [OF r c] idx lenZ lenn lend c
    by (auto simp: divide_exact_def expand_def)
  show "snd (fraction_free_row n r0 r1 dn dd r2 (ns, ds)) ! (r * n + c)
         = (if r = r2 \<and> r1 < c
            then ds ! (r2 * n + r1) * ds ! (r0 * n + c) * ds ! (r0 * n + r1) * ds ! (r2 * n + c) / dd
            else ds ! (r * n + c))"
    unfolding res using Z [OF r c] idx lenZ lenn lend c
    by (auto simp: divide_exact_def expand_def)
qed

section \<open>One step of the fraction-free elimination\<close>

lemma fraction_free_rows_nth:
  fixes ns ds :: "'a::field list"
  assumes lenn: "length ns = mm * n" and lend: "length ds = mm * n"
    and r0: "r0 < mm" and r1: "r1 < n" and k: "k \<le> mm"
  shows "length (fst (fold (fraction_free_row n r0 r1 dn dd) [r0 + 1..<k] (ns, ds))) = mm * n
       \<and> length (snd (fold (fraction_free_row n r0 r1 dn dd) [r0 + 1..<k] (ns, ds))) = mm * n
       \<and> (\<forall>r<mm. \<forall>c<n.
             fst (fold (fraction_free_row n r0 r1 dn dd) [r0 + 1..<k] (ns, ds)) ! (r * n + c)
             = (if r0 < r \<and> r < k
                then (if c \<le> r1 then 0
                      else (ns ! (r0 * n + r1) * ns ! (r * n + c) * ds ! (r * n + r1) * ds ! (r0 * n + c)
                            - ns ! (r * n + r1) * ns ! (r0 * n + c) * ds ! (r0 * n + r1) * ds ! (r * n + c)) / dn)
                else ns ! (r * n + c))
           \<and> snd (fold (fraction_free_row n r0 r1 dn dd) [r0 + 1..<k] (ns, ds)) ! (r * n + c)
             = (if r0 < r \<and> r < k \<and> r1 < c
                then ds ! (r * n + r1) * ds ! (r0 * n + c) * ds ! (r0 * n + r1) * ds ! (r * n + c) / dd
                else ds ! (r * n + c)))"
  using k
proof (induction k)
  case 0
  then show ?case using lenn lend by simp
next
  case (Suc k)
  show ?case
  proof (cases "r0 + 1 \<le> k")
    case False
    then show ?thesis using lenn lend by auto
  next
    case True
    let ?P = "fold (fraction_free_row n r0 r1 dn dd) [r0 + 1..<k] (ns, ds)"
    let ?ny = "fst ?P" and ?dy = "snd ?P"
    have kmm: "k < mm" using Suc.prems by simp
    have IH: "length ?ny = mm * n" "length ?dy = mm * n"
      "\<And>r c. r < mm \<Longrightarrow> c < n \<Longrightarrow>
         ?ny ! (r * n + c)
             = (if r0 < r \<and> r < k
                then (if c \<le> r1 then 0
                      else (ns ! (r0 * n + r1) * ns ! (r * n + c) * ds ! (r * n + r1) * ds ! (r0 * n + c)
                            - ns ! (r * n + r1) * ns ! (r0 * n + c) * ds ! (r0 * n + r1) * ds ! (r * n + c)) / dn)
                else ns ! (r * n + c))"
      "\<And>r c. r < mm \<Longrightarrow> c < n \<Longrightarrow>
         ?dy ! (r * n + c)
             = (if r0 < r \<and> r < k \<and> r1 < c
                then ds ! (r * n + r1) * ds ! (r0 * n + c) * ds ! (r0 * n + r1) * ds ! (r * n + c) / dd
                else ds ! (r * n + c))"
      using Suc.IH kmm by simp_all
    have step: "fold (fraction_free_row n r0 r1 dn dd) [r0 + 1..<Suc k] (ns, ds)
                = fraction_free_row n r0 r1 dn dd k (?ny, ?dy)"
      using True by simp
    have ne: "r0 \<noteq> k" using True by simp
    note row = fraction_free_row_nth [OF IH(1,2) r0 kmm ne r1, of _ _ dn dd]
    have keep: "?ny ! (r' * n + c') = ns ! (r' * n + c')" "?dy ! (r' * n + c') = ds ! (r' * n + c')"
      if "r' = r0 \<or> r' = k" "c' < n" for r' c'
      using IH(3) [of r' c'] IH(4) [of r' c'] that r0 kmm by auto
    have "fst (fraction_free_row n r0 r1 dn dd k (?ny, ?dy)) ! (r * n + c)
             = (if r0 < r \<and> r < Suc k
                then (if c \<le> r1 then 0
                      else (ns ! (r0 * n + r1) * ns ! (r * n + c) * ds ! (r * n + r1) * ds ! (r0 * n + c)
                            - ns ! (r * n + r1) * ns ! (r0 * n + c) * ds ! (r0 * n + r1) * ds ! (r * n + c)) / dn)
                else ns ! (r * n + c))
           \<and> snd (fraction_free_row n r0 r1 dn dd k (?ny, ?dy)) ! (r * n + c)
             = (if r0 < r \<and> r < Suc k \<and> r1 < c
                then ds ! (r * n + r1) * ds ! (r0 * n + c) * ds ! (r0 * n + r1) * ds ! (r * n + c) / dd
                else ds ! (r * n + c))" if rc: "r < mm" "c < n" for r c
    proof (cases "r = k")
      case True
      then show ?thesis
        using row(3) [OF rc] row(4) [OF rc] keep [of r0 r1] keep [of r0 c] keep [of k r1] keep [of k c]
          r1 rc \<open>r0 + 1 \<le> k\<close>
        by simp
    next
      case False
      then show ?thesis
        using row(3) [OF rc] row(4) [OF rc] IH(3) [OF rc] IH(4) [OF rc]
        by (auto simp: less_Suc_eq)
    qed
    then show ?thesis unfolding step using row(1) [of 0 0] row(2) [of 0 0] r0 r1 by simp
  qed
qed

text \<open>Rows swapped on the columns from k on: the minor changes its sign.\<close>

lemma minor_det_swapped_entries:
  fixes xs ys :: "'a::comm_ring_1 list"
  assumes k: "k < p" and p: "p < n"
    and ent: "\<And>r c. k \<le> r \<Longrightarrow> r < n \<Longrightarrow> k \<le> c \<Longrightarrow> c < n \<Longrightarrow>
                ys ! (r * n + c) = (if r = p then xs ! (k * n + c) else if r = k then xs ! (p * n + c)
                                    else xs ! (r * n + c))"
  shows "minor_det k (rows_from ys n k) = - minor_det k (rows_from xs n k)"
proof -
  let ?R = "rows_from xs n k"
  have "minor_det k (rows_from ys n k) = minor_det k (?R[0 := ?R ! (p - k), p - k := ?R ! 0])"
  proof (rule minor_det_cong)
    fix i j
    assume "i < length (rows_from ys n k)" and j: "k \<le> j" "j < k + length (rows_from ys n k)"
    then have i: "i < n - k" and jn: "j < n" using k p by simp_all
    have "ys ! ((k + i) * n + j) = (if k + i = p then xs ! (k * n + j) else if i = 0 then xs ! (p * n + j)
                                    else xs ! ((k + i) * n + j))"
      using ent [of "k + i" j] i j jn by simp
    then show "(rows_from ys n k ! i) j = (?R[0 := ?R ! (p - k), p - k := ?R ! 0] ! i) j"
      using i jn k p by (auto simp: rows_from_nth rowf_def nth_list_update)
  qed simp
  also have "\<dots> = - minor_det k ?R"
    by (rule minor_det_swap) (use k p in auto)
  finally show ?thesis .
qed

section \<open>The fraction-free elimination and the determinant\<close>

lemma bareiss_entry:
  fixes Nkk :: "'a::field"
  assumes "Dkk \<noteq> 0" "Drc \<noteq> 0" "Drk \<noteq> 0" "Dkc \<noteq> 0" "dn \<noteq> 0" "dd \<noteq> 0" "Nkk \<noteq> 0"
  shows "((Nkk * Nrc * Drk * Dkc - Nrk * Nkc * Dkk * Drc) / dn) / (Drk * Dkc * Dkk * Drc / dd)
         = ((Nkk / Dkk) / (dn / dd)) * (Nrc / Drc - (Nrk / Drk) / (Nkk / Dkk) * (Nkc / Dkc))"
  using assms by (simp add: field_simps)

lemma bareiss_power:
  fixes p :: "'a::field"
  assumes p: "p \<noteq> 0" and dv: "dv \<noteq> 0" and e: "0 < e"
    and E1: "S * L * p ^ (e - 1) = S2 * M3"
    and E2: "(p / dv) ^ e * M1 = p * M3"
  shows "S * L * dv ^ e = S2 * M1"
proof -
  obtain e' where e': "e = Suc e'" using e by (cases e) auto
  have "p ^ e * M1 = p * M3 * dv ^ e"
    using E2 dv by (simp add: power_divide field_simps)
  then have "p * (p ^ e' * M1) = p * (M3 * dv ^ e)"
    by (simp add: e' mult.assoc)
  then have 1: "p ^ e' * M1 = M3 * dv ^ e" using p by simp
  have "p ^ e' * (S * L * dv ^ e) = (S * L * p ^ e') * dv ^ e" by (simp add: mult.commute mult.left_commute)
  also have "\<dots> = S2 * M3 * dv ^ e" using E1 by (simp add: e')
  also have "\<dots> = S2 * (p ^ e' * M1)" using 1 by (simp add: mult.assoc)
  also have "\<dots> = p ^ e' * (S2 * M1)" by (simp add: mult.left_commute)
  finally show ?thesis using p by simp
qed

lemma last_index: "Suc k = n \<Longrightarrow> n * n - 1 = k * n + k"
  by auto

text \<open>
  The loop of the fraction-free elimination in determinant mode, from pivot \<open>k\<close> on.
\<close>

lemma fraction_free_loop_minor:
  fixes T :: "'a::{field,abs,ord} matrix"
  assumes "length (m T) = n * n" "length ds = n * n" "row T = n" "col T = n" "k < n"
    and "\<And>r c. r < n \<Longrightarrow> c < n \<Longrightarrow> ds ! (r * n + c) \<noteq> 0"
    and "dn \<noteq> 0" "dd \<noteq> 0"
  shows "case fraction_free_loop True n n k k sign dn dd T ds of
           None \<Rightarrow> minor_det k (rows_from (fractions (m T) ds) n k) = 0
         | Some (s, ns', ds') \<Rightarrow>
             of_int s * (ns' ! (n * n - 1) / ds' ! (n * n - 1)) * (dn / dd) ^ (n - Suc k)
               = of_int sign * minor_det k (rows_from (fractions (m T) ds) n k)
             \<and> length ns' = n * n \<and> length ds' = n * n"
  using assms
proof (induction "n - k" arbitrary: k sign dn dd T ds)
  case 0
  then show ?case by simp
next
  case (Suc j)
  note lenn = Suc.prems(1) and lend = Suc.prems(2) and rw = Suc.prems(3) and cl = Suc.prems(4)
    and kn = Suc.prems(5) and dnz = Suc.prems(6) and dn = Suc.prems(7) and dd = Suc.prems(8)
  let ?V = "fractions (m T) ds"
  have V: "?V ! (r * n + c) = m T ! (r * n + c) / ds ! (r * n + c)" if "r < n" "c < n" for r c
    using that lenn lend by (simp add: fractions_nth index_less)
  show ?case
  proof (cases "k < n - 1")
    case False
    then have k: "Suc k = n" using kn by simp
    have "fraction_free_loop True n n k k sign dn dd T ds = Some (sign, m T, ds)"
      using False by (subst fraction_free_loop.simps) (simp add: unsigned_pred_less [OF kn])
    moreover have "n * n - 1 = k * n + k" using k by (rule last_index)
    moreover have "minor_det k (rows_from ?V n k) = ?V ! (k * n + k)"
      using k by (rule rows_from_last)
    ultimately show ?thesis using V [of k k] kn k lenn lend by simp
  next
    case True
    have kr: "k < row T" using kn rw by simp
    have continue: "case fraction_free_loop True n n k k sign dn dd T ds of
           None \<Rightarrow> minor_det k (rows_from ?V n k) = 0
         | Some (s, ns', ds') \<Rightarrow>
             of_int s * (ns' ! (n * n - 1) / ds' ! (n * n - 1)) * (dn / dd) ^ (n - Suc k)
               = of_int sign * minor_det k (rows_from ?V n k)
             \<and> length ns' = n * n \<and> length ds' = n * n"
      if loopeq: "fraction_free_loop True n n k k sign dn dd T ds
                  = fraction_free_loop True n n (Suc k) (Suc k) sign2
                      (fst (fold (fraction_free_row n k k dn dd) [k + 1..<n] (m T1, ds1)) ! (k * n + k))
                      (snd (fold (fraction_free_row n k k dn dd) [k + 1..<n] (m T1, ds1)) ! (k * n + k))
                      (T1\<lparr>m := fst (fold (\<lambda>c (ns, ds). (ns[k * n + c := 0], ds[k * n + c := 1])) [0..<n]
                                       (fold (fraction_free_row n k k dn dd) [k + 1..<n] (m T1, ds1)))\<rparr>)
                      (snd (fold (\<lambda>c (ns, ds). (ns[k * n + c := 0], ds[k * n + c := 1])) [0..<n]
                              (fold (fraction_free_row n k k dn dd) [k + 1..<n] (m T1, ds1))))"
        and T1: "length (m T1) = n * n" "row T1 = n" "col T1 = n" and lend1: "length ds1 = n * n"
        and d1nz: "\<And>r c. r < n \<Longrightarrow> c < n \<Longrightarrow> ds1 ! (r * n + c) \<noteq> 0"
        and pne: "m T1 ! (k * n + k) \<noteq> 0"
        and minor: "minor_det k (rows_from (fractions (m T1) ds1) n k) = sg * minor_det k (rows_from ?V n k)"
        and sg: "sg = 1 \<or> sg = - 1" "of_int sign2 * sg = of_int sign"
      for sign2 T1 ds1 sg
    proof -
      let ?P = "fold (fraction_free_row n k k dn dd) [k + 1..<n] (m T1, ds1)"
      let ?ns2 = "fst ?P" and ?ds2 = "snd ?P"
      let ?ns3 = "fold (\<lambda>c ys. ys[k * n + c := 0]) [0..<n] ?ns2"
      let ?ds3 = "fold (\<lambda>c ys. ys[k * n + c := 1]) [0..<n] ?ds2"
      let ?dn1 = "m T1 ! (k * n + k)" and ?dd1 = "ds1 ! (k * n + k)"
      let ?T3 = "T1\<lparr>m := ?ns3\<rparr>"
      let ?V1 = "fractions (m T1) ds1"
      let ?V3 = "fractions ?ns3 ?ds3"
      note rows = fraction_free_rows_nth [OF T1(1) lend1 kn kn, of n dn dd, simplified]
      have len2: "length ?ns2 = n * n" "length ?ds2 = n * n" using rows by simp_all
      have ns2: "?ns2 ! (r * n + c)
             = (if k < r
                then (if c \<le> k then 0
                      else (m T1 ! (k * n + k) * m T1 ! (r * n + c) * ds1 ! (r * n + k) * ds1 ! (k * n + c)
                            - m T1 ! (r * n + k) * m T1 ! (k * n + c) * ds1 ! (k * n + k) * ds1 ! (r * n + c)) / dn)
                else m T1 ! (r * n + c))" if "r < n" "c < n" for r c
        using rows that by simp
      have ds2: "?ds2 ! (r * n + c)
             = (if k < r \<and> k < c
                then ds1 ! (r * n + k) * ds1 ! (k * n + c) * ds1 ! (k * n + k) * ds1 ! (r * n + c) / dd
                else ds1 ! (r * n + c))" if "r < n" "c < n" for r c
        using rows that by simp
      have len3: "length ?ns3 = n * n" "length ?ds3 = n * n"
        using len2 by (simp_all add: fold_update_length)
      have ns3: "?ns3 ! (r * n + c) = (if r = k \<and> 0 \<le> c \<and> c < n then 0 else ?ns2 ! (r * n + c))"
        if "r < n" "c < n" for r c
        by (rule fold_update_row [OF _ len2(1) _ that]) simp_all
      have ds3: "?ds3 ! (r * n + c) = (if r = k \<and> 0 \<le> c \<and> c < n then 1 else ?ds2 ! (r * n + c))"
        if "r < n" "c < n" for r c
        by (rule fold_update_row [OF _ len2(2) _ that]) simp_all
      have dn1: "?ns2 ! (k * n + k) = ?dn1" using ns2 [of k k] kn by simp
      have dd1: "?ds2 ! (k * n + k) = ?dd1" using ds2 [of k k] kn by simp
      have zero: "fold (\<lambda>c (ns, ds). (ns[k * n + c := 0], ds[k * n + c := 1])) [0..<n] ?P
                  = (?ns3, ?ds3)"
        using fold_pair_split [of "\<lambda>c ys. ys[k * n + c := 0]" "\<lambda>c ys. ys[k * n + c := 1]" "[0..<n]" ?ns2 ?ds2]
        by simp
      have loop: "fraction_free_loop True n n k k sign dn dd T ds
                  = fraction_free_loop True n n (Suc k) (Suc k) sign2 ?dn1 ?dd1 ?T3 ?ds3"
        unfolding loopeq zero dn1 dd1 by simp
      have d3nz: "?ds3 ! (r * n + c) \<noteq> 0" if "r < n" "c < n" for r c
        using ds3 [OF that] ds2 [OF that] d1nz [OF that] d1nz [of r k] d1nz [of k c] d1nz [of k k] that kn dd
        by simp
      have IH0: "case fraction_free_loop True n n (Suc k) (Suc k) sign2 ?dn1 ?dd1 ?T3 ?ds3 of
           None \<Rightarrow> minor_det (Suc k) (rows_from (fractions (m ?T3) ?ds3) n (Suc k)) = 0
         | Some (s, ns', ds') \<Rightarrow>
             of_int s * (ns' ! (n * n - 1) / ds' ! (n * n - 1)) * (?dn1 / ?dd1) ^ (n - Suc (Suc k))
               = of_int sign2 * minor_det (Suc k) (rows_from (fractions (m ?T3) ?ds3) n (Suc k))
             \<and> length ns' = n * n \<and> length ds' = n * n"
      proof (rule Suc.hyps(1))
        show "j = n - Suc k" using Suc.hyps(2) by simp
        show "length (m ?T3) = n * n" using len3 by simp
        show "length ?ds3 = n * n" using len3 by simp
        show "row ?T3 = n" "col ?T3 = n" using T1 by simp_all
        show "Suc k < n" using True by simp
        show "?ds3 ! (r * n + c) \<noteq> 0" if "r < n" "c < n" for r c using that by (rule d3nz)
        show "?dn1 \<noteq> 0" by (rule pne)
        show "?dd1 \<noteq> 0" using d1nz [of k k] kn by simp
      qed
      have mT3: "m ?T3 = ?ns3" by simp
      note IH = IH0 [unfolded mT3]
      have V1: "?V1 ! (r * n + c) = m T1 ! (r * n + c) / ds1 ! (r * n + c)" if "r < n" "c < n" for r c
        using that T1(1) lend1 by (simp add: fractions_nth index_less)
      have V3: "?V3 ! (r * n + c) = ?ns3 ! (r * n + c) / ?ds3 ! (r * n + c)" if "r < n" "c < n" for r c
        using that len3 by (simp add: fractions_nth index_less)
      let ?p = "?dn1 / ?dd1"
      have pnz: "?p \<noteq> 0" using pne d1nz [of k k] kn by simp
      have dvnz: "dn / dd \<noteq> 0" using dn dd by simp
      have step: "(?p / (dn / dd)) ^ (n - Suc k) * minor_det k (rows_from ?V1 n k)
                  = ?V1 ! (k * n + k) * minor_det (Suc k) (rows_from ?V3 n (Suc k))"
      proof (rule gauss_step_minor)
        show "length ?V1 = n * n" using T1(1) lend1 by simp
        show "Suc k < n" using True by simp
        show "?V1 ! (k * n + k) \<noteq> 0" using V1 [of k k] kn pnz by simp
      next
        fix r c assume rc: "k < r" "r < n" "k < c" "c < n"
        have "?V3 ! (r * n + c)
              = ((m T1 ! (k * n + k) * m T1 ! (r * n + c) * ds1 ! (r * n + k) * ds1 ! (k * n + c)
                            - m T1 ! (r * n + k) * m T1 ! (k * n + c) * ds1 ! (k * n + k) * ds1 ! (r * n + c)) / dn)
                / (ds1 ! (r * n + k) * ds1 ! (k * n + c) * ds1 ! (k * n + k) * ds1 ! (r * n + c) / dd)"
          using V3 [of r c] ns3 [of r c] ds3 [of r c] ns2 [of r c] ds2 [of r c] rc by simp
        also have "\<dots> = (?p / (dn / dd))
                          * (m T1 ! (r * n + c) / ds1 ! (r * n + c)
                             - (m T1 ! (r * n + k) / ds1 ! (r * n + k)) / ?p * (m T1 ! (k * n + c) / ds1 ! (k * n + c)))"
          by (rule bareiss_entry) (use d1nz rc kn dn dd pne in simp_all)
        finally show "?V3 ! (r * n + c)
                      = (?p / (dn / dd)) * (?V1 ! (r * n + c) - ?V1 ! (r * n + k) / ?V1 ! (k * n + k) * ?V1 ! (k * n + c))"
          using V1 [of r c] V1 [of r k] V1 [of k k] V1 [of k c] rc kn by simp
      qed
      have Vkk: "?V1 ! (k * n + k) = ?p" using V1 [of k k] kn by simp
      have sgn: "of_int sign2 * minor_det k (rows_from ?V1 n k) = of_int sign * minor_det k (rows_from ?V n k)"
        unfolding minor using sg(2) by (simp add: mult.assoc [symmetric])
      show ?thesis
      proof (cases "fraction_free_loop True n n (Suc k) (Suc k) sign2 ?dn1 ?dd1 ?T3 ?ds3")
        case None
        then have "minor_det (Suc k) (rows_from ?V3 n (Suc k)) = 0" using IH by simp
        then have "(?p / (dn / dd)) ^ (n - Suc k) * minor_det k (rows_from ?V1 n k) = 0"
          using step by simp
        then have "minor_det k (rows_from ?V1 n k) = 0" using pnz dvnz by simp
        then have "minor_det k (rows_from ?V n k) = 0" using minor sg(1) by auto
        then show ?thesis unfolding loop None by simp
      next
        case (Some res)
        obtain s ns' ds' where res: "res = (s, ns', ds')" by (cases res)
        have E1: "of_int s * (ns' ! (n * n - 1) / ds' ! (n * n - 1)) * ?p ^ (n - Suc k - 1)
                  = of_int sign2 * minor_det (Suc k) (rows_from ?V3 n (Suc k))"
          and lens: "length ns' = n * n" "length ds' = n * n"
          using IH Some res by simp_all
        have "of_int s * (ns' ! (n * n - 1) / ds' ! (n * n - 1)) * (dn / dd) ^ (n - Suc k)
              = of_int sign2 * minor_det k (rows_from ?V1 n k)"
          by (rule bareiss_power [OF pnz dvnz _ E1]) (use True step Vkk in simp_all)
        then show ?thesis unfolding loop Some res using sgn lens by simp
      qed
    qed
    from kr show ?thesis
    proof (cases rule: pivot_symbolic_cases [of k T k])
      case singular
      have "fraction_free_loop True n n k k sign dn dd T ds = None"
        using True kn singular(1) by (subst fraction_free_loop.simps) (simp add: unsigned_pred_less [OF kn])
      moreover have "minor_det k (rows_from ?V n k) = 0"
      proof (rule minor_det_zero_column)
        show "rows_from ?V n k \<noteq> []" using kn by (simp add: rows_from_def)
      next
        fix i assume "i < length (rows_from ?V n k)"
        then have i: "i < n - k" by simp
        then have "m T ! ((k + i) * n + k) = 0"
          using singular(2) [of "k + i"] rw cl by simp
        then show "(rows_from ?V n k ! i) k = 0"
          using i kn V [of "k + i" k] by (simp add: rows_from_nth rowf_def)
      qed
      ultimately show ?thesis by simp
    next
      case same
      have "fraction_free_loop True n n k k sign dn dd T ds
                  = fraction_free_loop True n n (Suc k) (Suc k) sign
                      (fst (fold (fraction_free_row n k k dn dd) [k + 1..<n] (m T, ds)) ! (k * n + k))
                      (snd (fold (fraction_free_row n k k dn dd) [k + 1..<n] (m T, ds)) ! (k * n + k))
                      (T\<lparr>m := fst (fold (\<lambda>c (ns, ds). (ns[k * n + c := 0], ds[k * n + c := 1])) [0..<n]
                                       (fold (fraction_free_row n k k dn dd) [k + 1..<n] (m T, ds)))\<rparr>)
                      (snd (fold (\<lambda>c (ns, ds). (ns[k * n + c := 0], ds[k * n + c := 1])) [0..<n]
                              (fold (fraction_free_row n k k dn dd) [k + 1..<n] (m T, ds))))"
        using True kn same(1)
        by (subst fraction_free_loop.simps) (simp add: unsigned_pred_less [OF kn] Let_def case_prod_beta expand_def)
      then show ?thesis
        by (rule continue [where sg = 1]) (use same(2) lenn lend rw cl dnz in simp_all)
    next
      case (swap p)
      have pn: "p < n" using swap(3) rw by simp
      let ?ds1 = "fold (\<lambda>c ys. ys[n * nat (int p) + c := ys ! (n * k + c),
                                     n * k + c := ys ! (n * nat (int p) + c)]) [k..<n] ds"
      have eq: "?ds1 = fold (\<lambda>c xs. xs[p * n + c := xs ! (k * n + c), k * n + c := xs ! (p * n + c)]) [k..<n] ds"
        by (simp add: mult.commute)
      have lend1: "length ?ds1 = n * n" unfolding eq using lend by (simp add: length_swap_fold)
      have nth: "m (swap_rows T p k) ! (r * n + c)
             = (if r = p then m T ! (k * n + c) else if r = k then m T ! (p * n + c) else m T ! (r * n + c))"
        if "r < n" "c < n" for r c
        using swap_rows_nth [of T n p k r c] lenn cl swap(2) pn kn that by simp
      have dnth: "?ds1 ! (r * n + c)
             = (if k \<le> c \<and> c < n
                then (if r = p then ds ! (k * n + c) else if r = k then ds ! (p * n + c) else ds ! (r * n + c))
                else ds ! (r * n + c))" if "r < n" "c < n" for r c
        unfolding eq by (rule swap_fold_range_nth [OF lend pn kn _ that]) (use swap(2) in simp_all)
      have "fraction_free_loop True n n k k sign dn dd T ds
                  = fraction_free_loop True n n (Suc k) (Suc k) (- sign)
                      (fst (fold (fraction_free_row n k k dn dd) [k + 1..<n] (m (swap_rows T p k), ?ds1)) ! (k * n + k))
                      (snd (fold (fraction_free_row n k k dn dd) [k + 1..<n] (m (swap_rows T p k), ?ds1)) ! (k * n + k))
                      ((swap_rows T p k)\<lparr>m := fst (fold (\<lambda>c (ns, ds). (ns[k * n + c := 0], ds[k * n + c := 1])) [0..<n]
                                       (fold (fraction_free_row n k k dn dd) [k + 1..<n] (m (swap_rows T p k), ?ds1)))\<rparr>)
                      (snd (fold (\<lambda>c (ns, ds). (ns[k * n + c := 0], ds[k * n + c := 1])) [0..<n]
                              (fold (fraction_free_row n k k dn dd) [k + 1..<n] (m (swap_rows T p k), ?ds1))))"
        using True kn swap(1,2)
        by (subst fraction_free_loop.simps) (simp add: unsigned_pred_less [OF kn] Let_def case_prod_beta expand_def)
      then show ?thesis
      proof (rule continue [where sg = "- 1"])
        show "m (swap_rows T p k) ! (k * n + k) \<noteq> 0"
          using nth [of k k] kn swap(2,4) cl by simp
        show "?ds1 ! (r * n + c) \<noteq> 0" if "r < n" "c < n" for r c
          using dnth [OF that] dnz [OF that] dnz [of k c] dnz [of p c] that pn kn by simp
        show "minor_det k (rows_from (fractions (m (swap_rows T p k)) ?ds1) n k)
              = - 1 * minor_det k (rows_from ?V n k)"
        proof -
          have "minor_det k (rows_from (fractions (m (swap_rows T p k)) ?ds1) n k) = - minor_det k (rows_from ?V n k)"
          proof (rule minor_det_swapped_entries [OF swap(2) pn])
            fix r c assume rc: "k \<le> r" "r < n" "k \<le> c" "c < n"
            have "fractions (m (swap_rows T p k)) ?ds1 ! (r * n + c)
                  = m (swap_rows T p k) ! (r * n + c) / ?ds1 ! (r * n + c)"
              using rc lenn lend1 by (simp add: fractions_nth index_less)
            then show "fractions (m (swap_rows T p k)) ?ds1 ! (r * n + c)
                  = (if r = p then ?V ! (k * n + c) else if r = k then ?V ! (p * n + c) else ?V ! (r * n + c))"
              using nth [of r c] dnth [of r c] V [of k c] V [of p c] V [of r c] rc kn pn by simp
          qed
          then show ?thesis by simp
        qed
      qed (use lenn lend1 rw cl swap(2) in simp_all)
    qed
  qed
qed

section \<open>The determinant by elimination\<close>

text \<open>The reference determinant: expansion of the rows of the matrix along its columns.\<close>

lemma det_rows_1: "col M = 1 \<Longrightarrow> det_rows M = m M ! 0"
  using rows_from_last [of 0 1 "m M"] by (simp add: det_rows_def)

lemma determinant_gauss_det_rows:
  fixes M :: "'a::{field,abs,ord} matrix"
  assumes sq: "row M = col M" and wf: "wf_matrix M"
  shows "determinant E M Gauss = Some (Inr (det_rows M))"
proof (cases "row M = 1")
  case True
  then show ?thesis
    using sq det_rows_1 [of M]
    by (simp add: determinant_def determinant_choice_def normal_def expand_def Let_def split: prod.splits)
next
  case False
  let ?n = "col M"
  have len: "length (m M) = ?n * ?n" and pos: "0 < ?n" using wf sq by (simp_all add: wf_matrix_def)
  obtain s M' where res: "gauss_loop E True ?n ?n 0 0 1 M = (s, M')"
    by (cases "gauss_loop E True ?n ?n 0 0 1 M")
  have "of_int s * (\<Prod>d = 0..<?n. m M' ! (d * ?n + d)) = of_int 1 * minor_det 0 (rows_from (m M) ?n 0)"
    using gauss_loop_minor [OF len sq refl pos, where E = E and sign = 1] res by simp
  then have "of_int s * fold (\<lambda>d det. det * m M' ! (d * ?n + d)) [0..<?n] 1 = det_rows M"
    by (simp add: fold_mult_prod det_rows_def)
  then show ?thesis
    using False sq res
    by (simp add: determinant_def determinant_choice_def gauss_elimination_def normal_def expand_def Let_def
          split: prod.splits)
qed

lemma fractions_numer_denom:
  assumes "\<forall>x. denom E x \<noteq> 0 \<and> numer E x / denom E x = x"
  shows "fractions (map (numer E) xs) (map (denom E) xs) = xs"
  using assms by (simp add: fractions_def list_eq_iff_nth_eq)

lemma determinant_bareiss_det_rows:
  fixes M :: "'a::{field,abs,ord} matrix"
  assumes sq: "row M = col M" and wf: "wf_matrix M"
    and nd: "\<forall>x. denom E x \<noteq> 0 \<and> numer E x / denom E x = x"
  shows "determinant E M Bareiss = Some (Inr (det_rows M))"
proof (cases "row M = 1")
  case True
  then show ?thesis
    using sq det_rows_1 [of M]
    by (simp add: determinant_def determinant_choice_def normal_def expand_def Let_def split: prod.splits)
next
  case False
  let ?n = "col M"
  let ?T = "M\<lparr>m := map (numer E) (m M)\<rparr>" and ?ds = "map (denom E) (m M)"
  have len: "length (m M) = ?n * ?n" and pos: "0 < ?n" using wf sq by (simp_all add: wf_matrix_def)
  have inv: "case fraction_free_loop True ?n ?n 0 0 1 1 1 ?T ?ds of
           None \<Rightarrow> minor_det 0 (rows_from (fractions (m ?T) ?ds) ?n 0) = 0
         | Some (s, ns', ds') \<Rightarrow>
             of_int s * (ns' ! (?n * ?n - 1) / ds' ! (?n * ?n - 1)) * (1 / 1) ^ (?n - Suc 0)
               = of_int 1 * minor_det 0 (rows_from (fractions (m ?T) ?ds) ?n 0)
             \<and> length ns' = ?n * ?n \<and> length ds' = ?n * ?n"
    by (rule fraction_free_loop_minor) (use len sq pos nd in \<open>simp_all add: index_less\<close>)
  have fr: "fractions (m ?T) ?ds = m M" using fractions_numer_denom [OF nd] by simp
  have last: "?n * ?n - 1 < ?n * ?n" using pos by simp
  have elim: "fraction_free_elimination E M True
        = (case fraction_free_loop True ?n ?n 0 0 1 1 1 ?T ?ds of
             None \<Rightarrow> (0, M)
           | Some (sign, ns, ds) \<Rightarrow> (sign, M\<lparr>m := map (\<lambda>(x, y). subs (x / y)) (zip ns ds)\<rparr>))"
    using False sq by (simp add: fraction_free_elimination_def Let_def to_rational_def normal_def)
  show ?thesis
  proof (cases "fraction_free_loop True ?n ?n 0 0 1 1 1 ?T ?ds")
    case None
    then have "det_rows M = 0" using inv fr by (simp add: det_rows_def)
    then show ?thesis
      using False sq elim None
      by (simp add: determinant_def determinant_choice_def normal_def expand_def Let_def split: prod.splits)
  next
    case (Some res)
    obtain s ns ds where res: "res = (s, ns, ds)" by (cases res)
    have "of_int s * (ns ! (?n * ?n - 1) / ds ! (?n * ?n - 1)) = det_rows M"
      and lens: "length ns = ?n * ?n" "length ds = ?n * ?n"
      using inv fr Some res by (simp_all add: det_rows_def)
    then show ?thesis
      using False sq elim Some res last
      by (simp add: determinant_def determinant_choice_def normal_def expand_def subs_def Let_def split: prod.splits)
  qed
qed

section \<open>Interchanging columns\<close>

text \<open>Dropping two rows, in either order.\<close>

lemma drop_nth_commute:
  assumes "i \<le> t" "Suc t < length R"
  shows "drop_nth t (drop_nth i R) = drop_nth i (drop_nth (Suc t) R)"
proof (rule nth_equalityI)
  show "length (drop_nth t (drop_nth i R)) = length (drop_nth i (drop_nth (Suc t) R))"
    using assms by simp
next
  fix j assume "j < length (drop_nth t (drop_nth i R))"
  then have j: "j < length R - 2" using assms by simp
  show "drop_nth t (drop_nth i R) ! j = drop_nth i (drop_nth (Suc t) R) ! j"
    using assms j by (auto simp: nth_drop_nth)
qed

text \<open>The expansion along two columns.\<close>

lemma minor_det_expand2:
  assumes "2 \<le> length R"
  shows "minor_det c R
         = (\<Sum>i<length R. \<Sum>t<length R - 1.
              (- 1) ^ (i + t) * (R ! i) c * (drop_nth i R ! t) (Suc c)
              * minor_det (Suc (Suc c)) (drop_nth t (drop_nth i R)))"
proof -
  have ne: "R \<noteq> []" using assms by auto
  have inner: "minor_det (Suc c) (drop_nth i R)
        = (\<Sum>t<length R - 1. (- 1) ^ t * (drop_nth i R ! t) (Suc c)
              * minor_det (Suc (Suc c)) (drop_nth t (drop_nth i R)))" if "i < length R" for i
  proof -
    have "drop_nth i R \<noteq> []" using that assms by (auto simp: drop_nth_def)
    then show ?thesis using that by (simp add: minor_det_expand)
  qed
  have "minor_det c R = (\<Sum>i<length R. (- 1) ^ i * (R ! i) c * minor_det (Suc c) (drop_nth i R))"
    using ne by (rule minor_det_expand)
  also have "\<dots> = (\<Sum>i<length R. (- 1) ^ i * (R ! i) c
                       * (\<Sum>t<length R - 1. (- 1) ^ t * (drop_nth i R ! t) (Suc c)
                            * minor_det (Suc (Suc c)) (drop_nth t (drop_nth i R))))"
    by (rule sum.cong) (simp_all add: inner)
  also have "\<dots> = (\<Sum>i<length R. \<Sum>t<length R - 1.
              (- 1) ^ (i + t) * (R ! i) c * (drop_nth i R ! t) (Suc c)
              * minor_det (Suc (Suc c)) (drop_nth t (drop_nth i R)))"
    by (simp add: sum_distrib_left power_add mult_ac)
  finally show ?thesis .
qed

text \<open>Swapping two neighbouring columns.\<close>

lemma minor_det_swap_first_columns:
  fixes R :: "(nat \<Rightarrow> 'a::comm_ring_1) list"
  assumes len: "2 \<le> length R"
  shows "minor_det c (map (swap_cols c) R) = - minor_det c R"
proof -
  let ?k = "length R"
  let ?R' = "map (swap_cols c) R"
  let ?D = "\<lambda>i t. minor_det (Suc (Suc c)) (drop_nth t (drop_nth i R))"
  let ?F = "\<lambda>(i, t). (- 1) ^ (i + t) * (R ! i) c * (drop_nth i R ! t) (Suc c) * ?D i t"
  let ?G = "\<lambda>(i, t). (- 1) ^ (i + t) * (R ! i) (Suc c) * (drop_nth i R ! t) c * ?D i t"
  let ?S = "{..<?k} \<times> {..<?k - 1}"
  let ?phi = "\<lambda>(i, t). if i \<le> t then (Suc t, i) else (t, i - 1)"
  have D': "minor_det (Suc (Suc c)) (drop_nth t (drop_nth i ?R')) = ?D i t" for i t
  proof -
    have "drop_nth t (drop_nth i ?R') = map (swap_cols c) (drop_nth t (drop_nth i R))"
      by (simp add: drop_nth_map)
    moreover have "minor_det (Suc (Suc c)) (map (swap_cols c) L) = minor_det (Suc (Suc c)) L" for L :: "(nat \<Rightarrow> 'a) list"
      by (rule minor_det_cong) (simp_all add: swap_cols_def)
    ultimately show ?thesis by simp
  qed
  have D'': "minor_det (Suc (Suc c)) (map (swap_cols c) L) = minor_det (Suc (Suc c)) L" for L :: "(nat \<Rightarrow> 'a) list"
    by (rule minor_det_cong) (simp_all add: swap_cols_def)
  have lhs: "minor_det c ?R' = (\<Sum>x\<in>?S. ?G x)"
  proof -
    have "minor_det c ?R'
         = (\<Sum>i<?k. \<Sum>t<?k - 1.
              (- 1) ^ (i + t) * (?R' ! i) c * (drop_nth i ?R' ! t) (Suc c)
              * minor_det (Suc (Suc c)) (drop_nth t (drop_nth i ?R')))"
      using minor_det_expand2 [of ?R' c] len by simp
    also have "\<dots> = (\<Sum>i<?k. \<Sum>t<?k - 1. ?G (i, t))"
    proof (intro sum.cong refl)
      fix i t assume "i \<in> {..<?k}" "t \<in> {..<?k - 1}"
      then have "i < ?k" "t < length (drop_nth i R)" by simp_all
      then show "(- 1) ^ (i + t) * (?R' ! i) c * (drop_nth i ?R' ! t) (Suc c)
              * minor_det (Suc (Suc c)) (drop_nth t (drop_nth i ?R')) = ?G (i, t)"
        by (simp add: D'' drop_nth_map swap_cols_def)
    qed
    also have "\<dots> = (\<Sum>x\<in>?S. ?G x)"
      by (simp add: sum.cartesian_product)
    finally show ?thesis .
  qed
  have rhs: "minor_det c R = (\<Sum>x\<in>?S. ?F x)"
    using minor_det_expand2 [OF len, of c] by (simp add: sum.cartesian_product)
  have phi_in: "?phi x \<in> ?S" if "x \<in> ?S" for x
    using that by (cases x) auto
  have phi_inv: "?phi (?phi x) = x" if "x \<in> ?S" for x
    using that by (cases x) auto
  have G_F: "?G x = - ?F (?phi x)" if "x \<in> ?S" for x
  proof -
    obtain i t where x: "x = (i, t)" by (cases x)
    have it: "i < ?k" "t < ?k - 1" using that x by simp_all
    show ?thesis
    proof (cases "i \<le> t")
      case True
      have "drop_nth i R ! t = R ! Suc t" using it True by (simp add: nth_drop_nth)
      moreover have "drop_nth (Suc t) R ! i = R ! i" using it True by (simp add: nth_drop_nth)
      moreover have "?D (Suc t) i = ?D i t"
        using drop_nth_commute [of i t R] it True by simp
      ultimately show ?thesis using True x by (simp add: add.commute mult_ac)
    next
      case False
      then obtain i' where i': "i = Suc i'" "t \<le> i'" by (cases i) auto
      have "drop_nth i R ! t = R ! t" using it False by (simp add: nth_drop_nth)
      moreover have "drop_nth t R ! i' = R ! i" using it i' by (simp add: nth_drop_nth)
      moreover have "?D t i' = ?D i t"
        using drop_nth_commute [of t i' R] it i' by simp
      ultimately show ?thesis using False x i' by (simp add: add.commute mult_ac)
    qed
  qed
  have "(\<Sum>x\<in>?S. ?G x) = (\<Sum>x\<in>?S. - ?F (?phi x))"
    by (rule sum.cong) (simp_all only: G_F)
  also have "\<dots> = (\<Sum>x\<in>?S. - ?F x)"
    by (rule sum.reindex_bij_witness [of _ ?phi ?phi]) (simp_all only: phi_in phi_inv)
  also have "\<dots> = - (\<Sum>x\<in>?S. ?F x)"
    by (simp only: sum_negf)
  finally show ?thesis unfolding lhs rhs .
qed

lemma minor_det_swap_columns:
  fixes R :: "(nat \<Rightarrow> 'a::comm_ring_1) list"
  assumes "c \<le> j" "Suc j < c + length R"
  shows "minor_det c (map (swap_cols j) R) = - minor_det c R"
  using assms
proof (induction "j - c" arbitrary: c R)
  case 0
  then have "c = j" "2 \<le> length R" by simp_all
  then show ?case using minor_det_swap_first_columns [of R c] by simp
next
  case (Suc d)
  let ?R' = "map (swap_cols j) R"
  have ne: "R \<noteq> []" using Suc.prems by auto
  have cj: "c < j" using Suc.hyps(2) by simp
  have sub: "minor_det (Suc c) (drop_nth i ?R') = - minor_det (Suc c) (drop_nth i R)" if "i < length R" for i
  proof -
    have "minor_det (Suc c) (map (swap_cols j) (drop_nth i R)) = - minor_det (Suc c) (drop_nth i R)"
      by (rule Suc.hyps(1)) (use Suc.hyps(2) Suc.prems that in auto)
    then show ?thesis by (simp add: drop_nth_map)
  qed
  have "minor_det c ?R' = (\<Sum>i<length R. (- 1) ^ i * (?R' ! i) c * minor_det (Suc c) (drop_nth i ?R'))"
    using ne by (simp add: minor_det_expand)
  also have "\<dots> = (\<Sum>i<length R. - ((- 1) ^ i * (R ! i) c * minor_det (Suc c) (drop_nth i R)))"
    by (rule sum.cong) (use cj sub in \<open>simp_all add: swap_cols_def\<close>)
  also have "\<dots> = - minor_det c R"
    using ne by (simp add: minor_det_expand sum_negf)
  finally show ?case .
qed

section \<open>Permutations of the columns\<close>

lemma inversions_swap:
  "b < a \<Longrightarrow> inversions (xs @ a # b # ys) = Suc (inversions (xs @ b # a # ys))"
  by (induction xs) auto

lemma inversions_0_sorted: "inversions xs = 0 \<Longrightarrow> sorted xs"
  by (induction xs) (auto simp: filter_empty_conv not_less)

lemma sorted_inversions_0: "sorted xs \<Longrightarrow> inversions xs = 0"
  by (induction xs) (auto simp: filter_empty_conv not_less)

lemma sorted_permutation_upt:
  assumes "sorted \<sigma>" "distinct \<sigma>" "set \<sigma> = {..<n}"
  shows "\<sigma> = [0..<n]"
proof (rule sorted_distinct_set_unique)
  show "sorted \<sigma>" "distinct \<sigma>" by fact+
  show "sorted [0..<n]" "distinct [0..<n]" by simp_all
  show "set \<sigma> = set [0..<n]" using assms(3) by (simp add: atLeast0LessThan)
qed

lemma descent_split:
  assumes "\<not> sorted (\<sigma> :: nat list)"
  shows "\<exists>xs a b ys. \<sigma> = xs @ a # b # ys \<and> b < a"
proof -
  obtain i where i: "Suc i < length \<sigma>" "\<sigma> ! Suc i < \<sigma> ! i"
    using assms by (auto simp: sorted_iff_nth_Suc not_le)
  have "\<sigma> = take i \<sigma> @ \<sigma> ! i # drop (Suc i) \<sigma>"
    using i(1) by (intro id_take_nth_drop) simp
  moreover have "drop (Suc i) \<sigma> = \<sigma> ! Suc i # drop (Suc (Suc i)) \<sigma>"
    using i(1) by (simp add: Cons_nth_drop_Suc)
  ultimately have "\<sigma> = take i \<sigma> @ \<sigma> ! i # \<sigma> ! Suc i # drop (Suc (Suc i)) \<sigma>"
    by simp
  then show ?thesis using i(2) by blast
qed

lemma swapped_nth:
  assumes "x < length (xs @ a # b # ys)"
  shows "(xs @ a # b # ys) ! x
         = (xs @ b # a # ys) ! (if x = length xs then Suc (length xs) else if x = Suc (length xs) then length xs else x)"
proof -
  consider "x < length xs" | "x = length xs" | "x = Suc (length xs)" | "Suc (Suc (length xs)) \<le> x"
    by linarith
  then show ?thesis
  proof cases
    case 1 then show ?thesis by (simp add: nth_append)
  next
    case 2 then show ?thesis by (simp add: nth_append)
  next
    case 3 then show ?thesis by (simp add: nth_append)
  next
    case 4
    then obtain d where "x = length xs + Suc (Suc d)"
      using le_Suc_ex [of "Suc (Suc (length xs))" x] by auto
    then show ?thesis by (simp add: nth_append)
  qed
qed

lemma minor_det_permute_cols:
  fixes R :: "(nat \<Rightarrow> 'a::comm_ring_1) list"
  assumes "distinct \<sigma>" "set \<sigma> = {..<n}" "length R = n"
  shows "minor_det 0 (map (permute_cols \<sigma>) R) = (- 1) ^ inversions \<sigma> * minor_det 0 R"
  using assms
proof (induction "inversions \<sigma>" arbitrary: \<sigma>)
  case 0
  have "sorted \<sigma>" using 0(1) by (simp add: inversions_0_sorted)
  then have sig: "\<sigma> = [0..<n]"
    using 0(2,3) by (rule sorted_permutation_upt)
  have "minor_det 0 (map (permute_cols \<sigma>) R) = minor_det 0 R"
  proof (rule minor_det_cong)
    show "length (map (permute_cols \<sigma>) R) = length R" by simp
  next
    fix i j
    assume "i < length (map (permute_cols \<sigma>) R)" "0 \<le> j" "j < 0 + length (map (permute_cols \<sigma>) R)"
    then have "i < length R" "j < n" using 0(4) by simp_all
    then show "(map (permute_cols \<sigma>) R ! i) j = (R ! i) j"
      by (simp add: permute_cols_def sig)
  qed
  then show ?case using 0(1) [symmetric] by simp
next
  case (Suc k)
  have len: "length \<sigma> = n"
    using distinct_card [OF Suc.prems(1)] Suc.prems(2) by simp
  have "\<not> sorted \<sigma>" using Suc.hyps(2) sorted_inversions_0 [of \<sigma>] by auto
  then obtain xs a b ys where sig: "\<sigma> = xs @ a # b # ys" and ba: "b < a"
    using descent_split by blast
  define \<sigma>' where "\<sigma>' = xs @ b # a # ys"
  have inv: "inversions \<sigma>' = k"
    using inversions_swap [OF ba, of xs ys] Suc.hyps(2) unfolding sig \<sigma>'_def by simp
  have d': "distinct \<sigma>'" using Suc.prems(1) unfolding sig \<sigma>'_def by auto
  have s': "set \<sigma>' = {..<n}" using Suc.prems(2) unfolding sig \<sigma>'_def by auto
  have IH: "minor_det 0 (map (permute_cols \<sigma>') R) = (- 1) ^ inversions \<sigma>' * minor_det 0 R"
    using inv [symmetric] d' s' Suc.prems(3) by (rule Suc.hyps(1))
  let ?i = "length xs"
  have i: "Suc ?i < n" using len unfolding sig by simp
  have "minor_det 0 (map (permute_cols \<sigma>) R)
        = minor_det 0 (map (swap_cols ?i) (map (permute_cols \<sigma>') R))"
  proof (rule minor_det_cong)
    show "length (map (permute_cols \<sigma>) R) = length (map (swap_cols ?i) (map (permute_cols \<sigma>') R))"
      by simp
  next
    fix r j
    assume "r < length (map (permute_cols \<sigma>) R)" "0 \<le> j" "j < 0 + length (map (permute_cols \<sigma>) R)"
    then have r: "r < length R" and j: "j < length (xs @ a # b # ys)"
      using Suc.prems(3) len unfolding sig by simp_all
    have "\<sigma> ! j = \<sigma>' ! (if j = ?i then Suc ?i else if j = Suc ?i then ?i else j)"
      unfolding sig \<sigma>'_def using j by (rule swapped_nth)
    then show "(map (permute_cols \<sigma>) R ! r) j = (map (swap_cols ?i) (map (permute_cols \<sigma>') R) ! r) j"
      using r by (simp add: permute_cols_def swap_cols_def)
  qed
  also have "\<dots> = - minor_det 0 (map (permute_cols \<sigma>') R)"
  proof (rule minor_det_swap_columns)
    show "0 \<le> ?i" by simp
    show "Suc ?i < 0 + length (map (permute_cols \<sigma>') R)" using i Suc.prems(3) by simp
  qed
  also have "\<dots> = (- 1) ^ inversions \<sigma> * minor_det 0 R"
    unfolding IH inv Suc.hyps(2) [symmetric] by simp
  finally show ?case .
qed

section \<open>The column presort\<close>

text \<open>The presort is a permutation of the columns.\<close>

lemma laplace_pre_sort_props:
  "distinct (laplace_pre_sort M) \<and> set (laplace_pre_sort M) = {..<col M}
   \<and> length (laplace_pre_sort M) = col M"
proof -
  define L where "L = map (\<lambda>c. (length (filter (\<lambda>r. is_zero (m M ! (r * col M + c))) [0..<row M]), c)) [0..<col M]"
  have ps: "laplace_pre_sort M = map snd (sort L)" by (simp add: laplace_pre_sort_def L_def)
  have snd_L: "map snd L = [0..<col M]" by (simp add: L_def comp_def)
  have dL: "distinct (map snd L)" by (simp add: snd_L)
  have "distinct L" "inj_on snd (set L)" using dL by (simp_all add: distinct_map)
  then have "distinct (map snd (sort L))"
    using \<open>distinct L\<close> by (simp add: distinct_map)
  moreover have "set (map snd (sort L)) = {..<col M}"
  proof -
    have "set (map snd (sort L)) = set (map snd L)" by simp
    then show ?thesis by (simp only: snd_L) auto
  qed
  ultimately show ?thesis by (simp add: ps L_def)
qed

text \<open>The entries of the sorted matrix.\<close>

lemma column_fold_length:
  "length (fold (\<lambda>r res. res[r * n + c := g r]) rs ys) = length ys"
  by (induction rs arbitrary: ys) simp_all

lemma column_fold_nth:
  assumes "c < n" "c' < n" "r' < rw" "length ys = rw * n" "j \<le> rw"
  shows "fold (\<lambda>r res. res[r * n + c := g r]) [0..<j] ys ! (r' * n + c')
         = (if c' = c \<and> r' < j then g r' else ys ! (r' * n + c'))"
  using assms(5)
proof (induction j)
  case 0 show ?case by simp
next
  case (Suc j)
  have lt: "r' * n + c' < rw * n" using assms(3,2) by (rule index_less)
  have "j * n + c = r' * n + c' \<longleftrightarrow> j = r' \<and> c = c'"
    using assms(1,2) by (rule index_eq_iff)
  then show ?case using Suc lt assms(4)
    by (auto simp: column_fold_length nth_list_update less_Suc_eq)
qed

lemma columns_fold_length:
  "length (fold (\<lambda>c. fold (\<lambda>r res. res[r * n + c := g r c]) rs) cs ys) = length ys"
  by (induction cs arbitrary: ys) (simp_all add: column_fold_length)

lemma columns_fold_nth:
  assumes "c' < n" "r' < rw" "length ys = rw * n" "k \<le> n"
  shows "fold (\<lambda>c. fold (\<lambda>r res. res[r * n + c := g r c]) [0..<rw]) [0..<k] ys ! (r' * n + c')
         = (if c' < k then g r' c' else ys ! (r' * n + c'))"
  using assms(4)
proof (induction k)
  case 0 show ?case by simp
next
  case (Suc k)
  let ?zs = "fold (\<lambda>c. fold (\<lambda>r res. res[r * n + c := g r c]) [0..<rw]) [0..<k] ys"
  have lz: "length ?zs = rw * n" by (simp add: columns_fold_length assms(3))
  have "fold (\<lambda>r res. res[r * n + k := g r k]) [0..<rw] ?zs ! (r' * n + c')
         = (if c' = k \<and> r' < rw then g r' k else ?zs ! (r' * n + c'))"
    using column_fold_nth [of k n c' r' rw ?zs rw "\<lambda>r. g r k"] Suc.prems assms(1,2) lz by simp
  then show ?case using Suc assms(2) by (auto simp: less_Suc_eq)
qed

lemma laplace_sorted_nth:
  assumes "r < row M" "c < col M" "length \<sigma> = col M"
  shows "m (laplace_sorted M \<sigma>) ! (r * col M + c) = m M ! (r * col M + \<sigma> ! c)"
  using columns_fold_nth [of c "col M" r "row M" "replicate (row M * col M) 0" "col M"
                             "\<lambda>r c. m M ! (r * col M + \<sigma> ! c)"] assms
  by (simp add: laplace_sorted_def)

lemma det_rows_laplace_sorted:
  fixes M :: "'a::field matrix"
  assumes sq: "row M = col M"
  shows "of_int (permutation_sign (laplace_pre_sort M))
           * det_rows (laplace_sorted M (laplace_pre_sort M)) = det_rows M"
proof -
  let ?\<sigma> = "laplace_pre_sort M"
  let ?n = "col M"
  have props: "distinct ?\<sigma>" "set ?\<sigma> = {..<?n}" "length ?\<sigma> = ?n"
    using laplace_pre_sort_props [of M] by simp_all
  have lt: "?\<sigma> ! j < ?n" if "j < ?n" for j
  proof -
    have "?\<sigma> ! j \<in> set ?\<sigma>" using that props(3) by (intro nth_mem) simp
    then show ?thesis by (simp add: props(2))
  qed
  have "det_rows (laplace_sorted M ?\<sigma>)
        = minor_det 0 (map (permute_cols ?\<sigma>) (rows_from (m M) ?n 0))"
    unfolding det_rows_def
  proof (rule minor_det_cong)
    show "length (rows_from (m (laplace_sorted M ?\<sigma>)) (col (laplace_sorted M ?\<sigma>)) 0)
          = length (map (permute_cols ?\<sigma>) (rows_from (m M) ?n 0))"
      by (simp add: laplace_sorted_def)
  next
    fix i j
    assume "i < length (rows_from (m (laplace_sorted M ?\<sigma>)) (col (laplace_sorted M ?\<sigma>)) 0)"
      and "0 \<le> j" and "j < 0 + length (rows_from (m (laplace_sorted M ?\<sigma>)) (col (laplace_sorted M ?\<sigma>)) 0)"
    then have ij: "i < ?n" "j < ?n" by (simp_all add: laplace_sorted_def)
    have c: "col (laplace_sorted M ?\<sigma>) = ?n" by (simp add: laplace_sorted_def)
    show "(rows_from (m (laplace_sorted M ?\<sigma>)) (col (laplace_sorted M ?\<sigma>)) 0 ! i) j
          = (map (permute_cols ?\<sigma>) (rows_from (m M) ?n 0) ! i) j"
      using ij lt [OF ij(2)] laplace_sorted_nth [of i M j ?\<sigma>] sq props(3)
      by (simp add: c rows_from_nth rowf_def permute_cols_def)
  qed
  also have "\<dots> = (- 1) ^ inversions ?\<sigma> * minor_det 0 (rows_from (m M) ?n 0)"
    using props by (intro minor_det_permute_cols) simp_all
  finally have "det_rows (laplace_sorted M ?\<sigma>) = (- 1) ^ inversions ?\<sigma> * det_rows M"
    by (simp add: det_rows_def)
  moreover have "((- 1) ^ inversions ?\<sigma> :: 'a) * (- 1) ^ inversions ?\<sigma> = 1"
    by (simp add: power_mult_distrib [symmetric])
  ultimately show ?thesis using props(1)
    by (simp add: permutation_sign_def mult.assoc [symmetric])
qed

section \<open>Minor expansion of small matrices\<close>

lemma minor_det_2: "minor_det c [f, g] = f c * g (Suc c) - g c * f (Suc c)"
  by (simp add: minor_det_expand [of "[f, g]"] drop_nth_def numeral_2_eq_2)

lemma minor_det_3:
  "minor_det c [f, g, h]
   = f c * (g (Suc c) * h (Suc (Suc c)) - h (Suc c) * g (Suc (Suc c)))
     - g c * (f (Suc c) * h (Suc (Suc c)) - h (Suc c) * f (Suc (Suc c)))
     + h c * (f (Suc c) * g (Suc (Suc c)) - g (Suc c) * f (Suc (Suc c)))"
  by (simp add: minor_det_expand [of "[f, g, h]"] drop_nth_def numeral_3_eq_3 minor_det_2)

lemma determinant_minor_small:
  fixes M :: "'a::field matrix"
  assumes "col M = 1 \<or> col M = 2 \<or> col M = 3"
  shows "determinant_minor M = Some (det_rows M)"
proof -
  consider "col M = 1" | "col M = 2" | "col M = 3" using assms by blast
  then show ?thesis
  proof cases
    case 1
    then show ?thesis by (simp add: determinant_minor_def det_rows_1 expand_def Let_def)
  next
    case 2
    have "rows_from (m M) 2 0 = [rowf (m M) 2 0, rowf (m M) 2 1]"
      by (simp add: rows_from_def upt_rec numeral_2_eq_2)
    then show ?thesis using 2
      by (simp add: determinant_minor_def det_rows_def minor_det_2 rowf_def expand_def numeral_3_eq_3 Let_def)
  next
    case 3
    have "rows_from (m M) 3 0 = [rowf (m M) 3 0, rowf (m M) 3 1, rowf (m M) 3 2]"
      by (simp add: rows_from_def upt_rec numeral_3_eq_3 numeral_2_eq_2)
    then show ?thesis using 3
      by (simp add: determinant_minor_def det_rows_def minor_det_3 rowf_def expand_def eval_nat_numeral Let_def algebra_simps)
  qed
qed

section \<open>Row keys in lexicographic order\<close>

lemma finite_combos: "finite (combos n k)"
proof -
  have "combos n k \<subseteq> {S. set S \<subseteq> {..<n} \<and> length S = k}" by (auto simp: combos_def)
  then show ?thesis using finite_lists_length_eq [of "{..<n}" k] by (rule finite_subset) simp
qed

lemma lex_less_nth:
  "length S = length T \<Longrightarrow>
     (S < T \<longleftrightarrow> (\<exists>d<length S. take d S = take d T \<and> S ! d < (T ! d :: nat)))"
proof (induction S T rule: list_induct2)
  case Nil
  show ?case by simp
next
  case (Cons a S b T)
  show ?case
    by (simp add: Ex_less_Suc2 Cons.IH) (use order_less_imp_not_eq in blast)
qed

lemma pointwise_le_lex:
  "length S = length T \<Longrightarrow> (\<forall>j<length S. S ! j \<le> (T ! j :: nat)) \<Longrightarrow> S \<le> T"
proof (induction S T rule: list_induct2)
  case Nil
  show ?case by simp
next
  case (Cons a S b T)
  have "a \<le> b" using Cons.prems by auto
  moreover have "S \<le> T" using Cons.prems by (intro Cons.IH) auto
  ultimately show ?case by auto
qed

lemma strict_sorted_gap:
  "sorted_wrt (<) S \<Longrightarrow> i \<le> j \<Longrightarrow> j < length S \<Longrightarrow> S ! i + (j - i) \<le> (S ! j :: nat)"
proof (induction "j - i" arbitrary: j)
  case 0
  then show ?case by simp
next
  case (Suc d)
  then obtain j' where j: "j = Suc j'" "i \<le> j'" "d = j' - i" by (cases j) auto
  have "S ! i + (j' - i) \<le> S ! j'" using Suc.hyps(1) [of j'] j Suc.prems by simp
  moreover have "S ! j' < S ! j"
    using Suc.prems j by (simp add: sorted_wrt_iff_nth_less)
  ultimately show ?case using j by simp
qed

lemma combos_lower: "S \<in> combos n k \<Longrightarrow> j < k \<Longrightarrow> j \<le> S ! j"
  using strict_sorted_gap [of S 0 j] by (simp add: combos_def)

lemma combos_upper: "S \<in> combos n k \<Longrightarrow> j < k \<Longrightarrow> S ! j + (k - j) \<le> n"
proof -
  assume S: "S \<in> combos n k" and j: "j < k"
  then have "S ! j + (k - 1 - j) \<le> S ! (k - 1)"
    using strict_sorted_gap [of S j "k - 1"] by (simp add: combos_def)
  moreover have "S ! (k - 1) < n"
    using S j by (auto simp: combos_def subset_iff)
  ultimately show ?thesis using j by simp
qed

section \<open>The flipper counter\<close>

lemma flipper_inc_props:
  assumes "f \<le> length P"
  shows "case flipper_inc c f P of
           (q, P') \<Rightarrow>
             q \<le> f \<and> length P' = length P
             \<and> (\<forall>j<length P. P' ! j = (if q - 1 \<le> j \<and> j < f then Suc (P ! j) else P ! j))
             \<and> (\<forall>j. q \<le> j \<and> j < f \<longrightarrow> \<not> Suc (P ! j) < Suc j + c)
             \<and> (0 < q \<longrightarrow> Suc (P ! (q - 1)) < q + c)"
  using assms
proof (induction f arbitrary: P)
  case 0
  show ?case by simp
next
  case (Suc f)
  let ?P1 = "P[f := P ! f + 1]"
  have f: "f < length P" using Suc.prems by simp
  show ?case
  proof (cases "?P1 ! f < Suc f + c")
    case True
    then have "flipper_inc c (Suc f) P = (Suc f, ?P1)" by simp
    moreover have "Suc (P ! f) < Suc f + c" using True f by simp
    ultimately show ?thesis using f by (auto simp: nth_list_update)
  next
    case False
    obtain q P' where r: "flipper_inc c f ?P1 = (q, P')" by (cases "flipper_inc c f ?P1")
    have eq: "flipper_inc c (Suc f) P = (q, P')" using False r by simp
    have IH: "q \<le> f \<and> length P' = length ?P1
             \<and> (\<forall>j<length ?P1. P' ! j = (if q - 1 \<le> j \<and> j < f then Suc (?P1 ! j) else ?P1 ! j))
             \<and> (\<forall>j. q \<le> j \<and> j < f \<longrightarrow> \<not> Suc (?P1 ! j) < Suc j + c)
             \<and> (0 < q \<longrightarrow> Suc (?P1 ! (q - 1)) < q + c)"
      using Suc.IH [of ?P1] f r by simp
    have nf: "\<not> Suc (P ! f) < Suc f + c" using False f by simp
    have 1: "q \<le> Suc f" "length P' = length P" using IH by simp_all
    have 2: "P' ! j = (if q - 1 \<le> j \<and> j < Suc f then Suc (P ! j) else P ! j)" if "j < length P" for j
    proof (cases "j = f")
      case True
      then show ?thesis using IH f by auto
    next
      case False
      then show ?thesis using IH that by (auto simp: nth_list_update less_Suc_eq)
    qed
    have 3: "\<not> Suc (P ! j) < Suc j + c" if "q \<le> j \<and> j < Suc f" for j
    proof (cases "j = f")
      case True
      then show ?thesis using nf by simp
    next
      case False
      then have "q \<le> j \<and> j < f" using that by simp
      then have "\<not> Suc (?P1 ! j) < Suc j + c" using IH by blast
      then show ?thesis using False by simp
    qed
    have 4: "Suc (P ! (q - 1)) < q + c" if "0 < q"
    proof -
      have "q \<le> f" using IH by blast
      then have "q - 1 \<noteq> f" using that by simp
      moreover have "Suc (?P1 ! (q - 1)) < q + c" using IH that by blast
      ultimately show ?thesis by simp
    qed
    show ?thesis unfolding eq using 1 2 3 4 by simp
  qed
qed

lemma reset_fold_length:
  "length (fold (\<lambda>j P. P[j := P ! (j - 1) + 1]) js P) = length P"
  by (induction js arbitrary: P) simp_all

lemma reset_fold_nth:
  assumes "0 < q" "k \<le> length P" "j < length P"
  shows "fold (\<lambda>j P. P[j := P ! (j - 1) + 1]) [q..<k] P ! j
         = (if q \<le> j \<and> j < k then P ! (q - 1) + (j - q + 1) else P ! j)"
  using assms(2,3)
proof (induction k arbitrary: j)
  case 0
  show ?case by simp
next
  case (Suc k)
  let ?Q = "fold (\<lambda>j P. P[j := P ! (j - 1) + 1]) [q..<k] P"
  have k: "k < length P" using Suc.prems by simp
  have IH: "?Q ! i = (if q \<le> i \<and> i < k then P ! (q - 1) + (i - q + 1) else P ! i)"
    if "i < length P" for i
    using Suc.IH [of i] that k by simp
  show ?case
  proof (cases "q \<le> k")
    case False
    then show ?thesis by simp
  next
    case True
    then have upt: "[q..<Suc k] = [q..<k] @ [k]" by simp
    have step: "fold (\<lambda>j P. P[j := P ! (j - 1) + 1]) [q..<Suc k] P = ?Q[k := ?Q ! (k - 1) + 1]"
      unfolding upt by simp
    have km: "?Q ! (k - 1) + 1 = P ! (q - 1) + (k - q + 1)"
    proof (cases "q = k")
      case True
      then show ?thesis using IH [of "k - 1"] k assms(1) by simp
    next
      case False
      then have "q \<le> k - 1" "k - 1 < k" using True assms(1) by simp_all
      then show ?thesis using IH [of "k - 1"] k by simp
    qed
    have lq: "length ?Q = length P" by (rule reset_fold_length)
    show ?thesis
    proof (cases "j = k")
      case True
      have "?Q[k := ?Q ! (k - 1) + 1] ! k = ?Q ! (k - 1) + 1"
        using k lq by (intro nth_list_update_eq) simp
      then show ?thesis unfolding step using True \<open>q \<le> k\<close> km by simp
    next
      case False
      have "?Q[k := ?Q ! (k - 1) + 1] ! j = ?Q ! j"
        using False by (intro nth_list_update_neq) simp
      then show ?thesis unfolding step using False IH [OF Suc.prems(2)] by (auto simp: less_Suc_eq)
    qed
  qed
qed

lemma flipper_props:
  assumes S: "S \<in> combos n k" and k: "k = n - c" and c: "c < n"
  shows "case flipper n c S of
           (q, S') \<Rightarrow>
             (q = 0 \<longrightarrow> S = [c..<n])
             \<and> (0 < q \<longrightarrow> S' \<in> combos n k \<and> S < S' \<and> (\<forall>T\<in>combos n k. S < T \<longrightarrow> S' \<le> T))"
proof -
  have len: "length S = k" and srt: "sorted_wrt (<) S" using S by (simp_all add: combos_def)
  have nck: "n = c + k" using k c by simp
  have upper: "S ! j \<le> j + c" if "j < k" for j
    using combos_upper [OF S that] nck that by simp
  obtain q P1 where inc: "flipper_inc c k S = (q, P1)" by (cases "flipper_inc c k S")
  have props: "q \<le> k \<and> length P1 = length S
             \<and> (\<forall>j<length S. P1 ! j = (if q - 1 \<le> j \<and> j < k then Suc (S ! j) else S ! j))
             \<and> (\<forall>j. q \<le> j \<and> j < k \<longrightarrow> \<not> Suc (S ! j) < Suc j + c)
             \<and> (0 < q \<longrightarrow> Suc (S ! (q - 1)) < q + c)"
    using flipper_inc_props [of k S c] len inc by simp
  have qk: "q \<le> k" and lP1: "length P1 = k" using props len by simp_all
  have P1: "P1 ! j = (if q - 1 \<le> j then Suc (S ! j) else S ! j)" if "j < k" for j
    using props len that by simp
  have atmax: "S ! j = j + c" if "q \<le> j" "j < k" for j
  proof -
    have "\<not> Suc (S ! j) < Suc j + c" using props that by blast
    then show ?thesis using upper [OF that(2)] by simp
  qed
  have notmax: "Suc (S ! (q - 1)) < q + c" if "0 < q" using props that by blast
  define S' where "S' = fold (\<lambda>j P. P[j := P ! (j - 1) + 1]) [q..<k] P1"
  have fl: "flipper n c S = (q, if 0 < q then S' else P1)"
  proof (cases "q < k")
    case True
    then show ?thesis using inc k by (simp add: flipper_def S'_def)
  next
    case False
    then have "[q..<k] = []" by simp
    then show ?thesis using inc k False by (simp add: flipper_def S'_def)
  qed
  have first: "S = [c..<n]" if "q = 0"
  proof (rule nth_equalityI)
    show "length S = length [c..<n]" using len nck by simp
  next
    fix j assume "j < length S"
    then have j: "j < k" using len by simp
    then show "S ! j = [c..<n] ! j" using atmax [of j] that nck by simp
  qed
  have "S' \<in> combos n k \<and> S < S' \<and> (\<forall>T\<in>combos n k. S < T \<longrightarrow> S' \<le> T)" if q0: "0 < q"
  proof -
    have lS': "length S' = k" unfolding S'_def reset_fold_length by (rule lP1)
    have q1: "q - 1 < k" using q0 qk by simp
    have nth: "S' ! j = (if j < q - 1 then S ! j else Suc (S ! (q - 1)) + (j - (q - 1)))" if "j < k" for j
    proof -
      have A: "S' ! j = (if q \<le> j \<and> j < k then P1 ! (q - 1) + (j - q + 1) else P1 ! j)"
        unfolding S'_def using q0 lP1 that by (intro reset_fold_nth) simp_all
      have B: "P1 ! (q - 1) = Suc (S ! (q - 1))" using P1 [OF q1] by simp
      note C = P1 [OF that]
      consider "j < q - 1" | "j = q - 1" | "q \<le> j" using q0 by linarith
      then show ?thesis
      proof cases
        case 1
        then have "\<not> q \<le> j" by simp
        then show ?thesis using A C 1 by simp
      next
        case 2
        then have "\<not> q \<le> j" using q0 by simp
        then show ?thesis using A B 2 by simp
      next
        case 3
        have n: "\<not> j < q - 1" and e: "j - q + 1 = j - (q - 1)" using 3 q0 by simp_all
        have A': "S' ! j = P1 ! (q - 1) + (j - q + 1)" using A 3 that by (simp only: if_True simp_thms)
        have "S' ! j = Suc (S ! (q - 1)) + (j - (q - 1))" by (simp only: A' B e)
        then show ?thesis using n by (simp only: if_False)
      qed
    qed
    have bound: "S' ! j \<le> j + c" if "j < k" for j
    proof (cases "j < q - 1")
      case True
      then show ?thesis using nth [OF that] upper [OF that] by simp
    next
      case False
      then show ?thesis using nth [OF that] notmax [OF q0] by simp
    qed
    have adj: "S' ! j < S' ! Suc j" if "Suc j < k" for j
    proof -
      have j: "j < k" using that by simp
      consider "Suc j < q - 1" | "Suc j = q - 1" | "q - 1 \<le> j" by linarith
      then show ?thesis
      proof cases
        case 1
        then show ?thesis using nth [OF that] nth [OF j] srt len that
          by (simp add: sorted_wrt_iff_nth_less)
      next
        case 2
        have "S ! j < S ! Suc j" using srt len that by (simp add: sorted_wrt_iff_nth_less)
        then show ?thesis using nth [OF that] nth [OF j] 2 by simp
      next
        case 3
        then have "\<not> j < q - 1" "\<not> Suc j < q - 1" "Suc j - (q - 1) = Suc (j - (q - 1))"
          by simp_all
        then show ?thesis using nth [OF that] nth [OF j] by (simp only: if_False)
      qed
    qed
    have "sorted_wrt (<) S'"
      using adj lS' by (simp add: sorted_wrt_iff_nth_Suc_transp)
    moreover have "set S' \<subseteq> {..<n}"
    proof
      fix x assume "x \<in> set S'"
      then obtain j where "j < k" "x = S' ! j" using lS' by (auto simp: in_set_conv_nth)
      then show "x \<in> {..<n}" using bound [of j] nck by simp
    qed
    ultimately have mem: "S' \<in> combos n k" using lS' by (simp add: combos_def)
    have pre: "take (q - 1) S = take (q - 1) S'"
      by (rule nth_take_lemma) (use q1 len lS' nth in simp_all)
    have less: "S < S'"
      unfolding lex_less_nth [of S S', OF len [unfolded lS' [symmetric]]]
      using q1 len pre nth [OF q1] by (intro exI [of _ "q - 1"]) simp
    have gap: "S' \<le> T" if T: "T \<in> combos n k" and ST: "S < T" for T
    proof -
      have lT: "length T = k" and srtT: "sorted_wrt (<) T" using T by (simp_all add: combos_def)
      have upperT: "T ! j \<le> j + c" if "j < k" for j
        using combos_upper [OF T that] nck that by simp
      obtain d where d: "d < k" "take d S = take d T" "S ! d < T ! d"
        using ST lex_less_nth [of S T] len lT by auto
      have dq: "d \<le> q - 1"
      proof (rule ccontr)
        assume "\<not> d \<le> q - 1"
        then have "q \<le> d" by simp
        then have "S ! d = d + c" using atmax d(1) by simp
        then show False using d(3) upperT [OF d(1)] by simp
      qed
      have take': "take d S' = take d T"
      proof -
        have "take d (take (q - 1) S) = take d (take (q - 1) S')" using pre by simp
        then have "take d S = take d S'" using dq by (simp add: min_def)
        then show ?thesis using d(2) by simp
      qed
      show ?thesis
      proof (cases "S' ! d < T ! d")
        case True
        then have "S' < T"
          using lex_less_nth [of S' T] lS' lT d(1) take' by auto
        then show ?thesis by simp
      next
        case False
        then have dq': "d = q - 1" using nth [OF d(1)] d(3) dq by (auto split: if_splits)
        have eqd: "T ! d = S' ! d" using False nth [OF d(1)] d(3) dq' by simp
        have "S' ! j \<le> T ! j" if j: "j < k" for j
        proof -
          consider "j < d" | "d \<le> j" by linarith
          then show ?thesis
          proof cases
            case 1
            have "take d S' ! j = take d T ! j" using take' by simp
            then show ?thesis using 1 by simp
          next
            case 2
            have "T ! d + (j - d) \<le> T ! j"
              using strict_sorted_gap [OF srtT 2] j lT by simp
            then show ?thesis using nth [OF j] 2 eqd nth [OF d(1)] dq' by simp
          qed
        qed
        then show ?thesis using lS' lT by (intro pointwise_le_lex) simp_all
      qed
    qed
    show ?thesis using mem less gap by blast
  qed
  then show ?thesis unfolding fl using first by simp
qed

section \<open>The sum over the rows of a key\<close>

lemma fold_signed_sum:
  fixes a :: "nat \<Rightarrow> 'a::comm_ring_1"
  shows "fold (\<lambda>r det. if z r then det else if r mod 2 \<noteq> 0 then det - a r else det + a r) [0..<k] d
         = d + (\<Sum>r<k. if z r then 0 else (- 1) ^ r * a r)"
proof (induction k)
  case 0
  show ?case by simp
next
  case (Suc k)
  have "(- 1 :: 'a) ^ k = (if k mod 2 \<noteq> 0 then - 1 else 1)"
    by (cases "even k") (simp_all add: even_iff_mod_2_eq_zero)
  then show ?case using Suc by simp
qed

lemma key_drop:
  assumes "i < length S"
  shows "map (\<lambda>j. S ! j) (filter (\<lambda>j. j \<noteq> i) [0..<length S]) = drop_nth i S"
proof -
  have "[0..<length S] = [0..<i] @ i # [Suc i..<length S]"
    using assms by (metis le0 upt_conv_Cons upt_add_eq_append le_add_diff_inverse less_imp_le_nat)
  then have "filter (\<lambda>j. j \<noteq> i) [0..<length S] = [0..<i] @ [Suc i..<length S]"
    by (simp add: filter_id_conv)
  moreover have "map (\<lambda>j. S ! j) [0..<i] = take i S"
    using assms by (intro nth_equalityI) simp_all
  moreover have "map (\<lambda>j. S ! j) [Suc i..<length S] = drop (Suc i) S"
    using assms by (intro nth_equalityI) simp_all
  ultimately show ?thesis by (simp add: drop_nth_def)
qed

lemma drop_nth_combos:
  assumes S: "S \<in> combos n (Suc k)" and i: "i < Suc k"
  shows "drop_nth i S \<in> combos n k"
proof -
  have len: "length S = Suc k" and srt: "sorted_wrt (<) S" and sub: "set S \<subseteq> {..<n}"
    using S by (simp_all add: combos_def)
  have l: "length (drop_nth i S) = k" using len i by simp
  have "sorted_wrt (<) (drop_nth i S)"
    unfolding sorted_wrt_iff_nth_less
  proof (intro allI impI)
    fix a b assume ab: "a < b" "b < length (drop_nth i S)"
    then have b: "b < k" and a: "a < k" using l by simp_all
    have "(if a < i then a else Suc a) < (if b < i then b else Suc b)" using ab by simp
    moreover have "(if b < i then b else Suc b) < length S" using b len by simp
    ultimately have "S ! (if a < i then a else Suc a) < S ! (if b < i then b else Suc b)"
      using srt unfolding sorted_wrt_iff_nth_less by blast
    then show "drop_nth i S ! a < drop_nth i S ! b"
      using a b i len by (auto simp: nth_drop_nth split: if_splits)
  qed
  moreover have "set (drop_nth i S) \<subseteq> set S"
    using set_take_subset [of i S] set_drop_subset [of "Suc i" S] by (auto simp: drop_nth_def)
  ultimately show ?thesis using l sub by (auto simp: combos_def)
qed

lemma minor_sum_minor_det:
  fixes xs :: "'a::field list"
  assumes tab: "table_ok xs n (Suc c) A" and S: "S \<in> combos n (n - c)" and c: "c < n"
  shows "minor_sum xs n c A S = minor_det c (map (rowf xs n) S)"
proof -
  let ?k = "n - c"
  have len: "length S = ?k" using S by (simp add: combos_def)
  have k: "?k = Suc (n - Suc c)" using c by simp
  have ne: "map (rowf xs n) S \<noteq> []" using len c by auto
  have look: "minor_lookup A (drop_nth r S) = minor_det (Suc c) (map (rowf xs n) (drop_nth r S))"
    if "r < ?k" for r
  proof -
    have "drop_nth r S \<in> combos n (n - Suc c)"
      using S that unfolding k by (rule drop_nth_combos)
    then show ?thesis using tab by (simp add: table_ok_def)
  qed
  have "minor_sum xs n c A S
        = fold (\<lambda>r det. if is_zero (xs ! (S ! r * n + c)) then det
                 else if r mod 2 \<noteq> 0
                      then det - xs ! (S ! r * n + c)
                                 * minor_lookup A (map (\<lambda>i. S ! i) (filter (\<lambda>i. i \<noteq> r) [0..<?k]))
                      else det + xs ! (S ! r * n + c)
                                 * minor_lookup A (map (\<lambda>i. S ! i) (filter (\<lambda>i. i \<noteq> r) [0..<?k])))
            [0..<?k] 0"
    by (simp only: minor_sum_def Let_def)
  also have "\<dots> = 0 + (\<Sum>r<?k. if is_zero (xs ! (S ! r * n + c)) then 0
                 else (- 1) ^ r * (xs ! (S ! r * n + c)
                        * minor_lookup A (map (\<lambda>i. S ! i) (filter (\<lambda>i. i \<noteq> r) [0..<?k]))))"
    by (rule fold_signed_sum)
  also have "\<dots> = (\<Sum>r<?k. (- 1) ^ r * (map (rowf xs n) S ! r) c
                        * minor_det (Suc c) (drop_nth r (map (rowf xs n) S)))"
  proof -
    have "(if is_zero (xs ! (S ! r * n + c)) then 0
                 else (- 1) ^ r * (xs ! (S ! r * n + c)
                        * minor_lookup A (map (\<lambda>i. S ! i) (filter (\<lambda>i. i \<noteq> r) [0..<?k]))))
          = (- 1) ^ r * (map (rowf xs n) S ! r) c
                        * minor_det (Suc c) (drop_nth r (map (rowf xs n) S))" if "r < ?k" for r
    proof -
      have "map (\<lambda>i. S ! i) (filter (\<lambda>i. i \<noteq> r) [0..<?k]) = drop_nth r S"
        using key_drop [of r S] that len by simp
      moreover have "(map (rowf xs n) S ! r) c = xs ! (S ! r * n + c)"
        using that len c by (simp add: rowf_def)
      ultimately show ?thesis
        using look [OF that] by (simp add: is_zero_def drop_nth_map)
    qed
    then show ?thesis by simp
  qed
  also have "\<dots> = minor_det c (map (rowf xs n) S)"
    using minor_det_expand [OF ne, of c] len by simp
  finally show ?thesis .
qed

section \<open>The loop over the keys\<close>

lemma minor_keys_correct:
  fixes xs :: "'a::field list"
  assumes tab: "table_ok xs n (Suc c) A" and c: "c < n"
    and S: "S \<in> combos n (n - c)"
    and inv1: "\<And>T. B T \<noteq> None \<Longrightarrow> T \<in> combos n (n - c) \<and> T < S"
    and inv2: "\<And>T. T \<in> combos n (n - c) \<Longrightarrow> T < S
                 \<Longrightarrow> minor_lookup B T = minor_det c (map (rowf xs n) T)"
  shows "\<exists>B'. minor_keys xs n c A B S = Some (minor_det c (map (rowf xs n) [c..<n]), B')
              \<and> table_ok xs n c B'"
  using S inv1 inv2
proof (induction "card {T \<in> combos n (n - c). S < T}" arbitrary: S B rule: less_induct)
  case less
  note S = less.prems(1) and inv1 = less.prems(2) and inv2 = less.prems(3)
  let ?k = "n - c"
  let ?minor = "\<lambda>T. minor_det c (map (rowf xs n) T)"
  define det where "det = minor_sum xs n c A S"
  define B1 where "B1 = (if \<not> is_zero det then minor_insert B S det else B)"
  have det: "det = ?minor S" unfolding det_def using tab S c by (rule minor_sum_minor_det)
  have BS: "B S = None"
  proof (rule ccontr)
    assume "B S \<noteq> None"
    then have "S < S" using inv1 [of S] by simp
    then show False by simp
  qed
  have B1S: "minor_lookup B1 S = det"
    using BS by (simp add: B1_def minor_insert_def minor_lookup_def is_zero_def)
  have B1T: "B1 T = B T" if "T \<noteq> S" for T
    using BS that by (simp add: B1_def minor_insert_def)
  have B1dom: "T = S \<or> B T \<noteq> None" if "B1 T \<noteq> None" for T
    using that B1T [of T] by (cases "T = S") simp_all
  obtain q S' where fl: "flipper n c S = (q, S')" by (cases "flipper n c S")
  have props: "(q = 0 \<longrightarrow> S = [c..<n])
             \<and> (0 < q \<longrightarrow> S' \<in> combos n ?k \<and> S < S' \<and> (\<forall>T\<in>combos n ?k. S < T \<longrightarrow> S' \<le> T))"
    using flipper_props [OF S refl c] fl by simp
  have unfold: "minor_keys xs n c A B S
        = (if q \<noteq> 0 then minor_keys xs n c A B1 S' else Some (det, B1))"
    by (subst minor_keys.simps) (simp add: Let_def expand_def det_def B1_def fl)
  have upto: "minor_lookup B1 T = ?minor T" if "T \<in> combos n ?k" "T \<le> S" for T
  proof (cases "T = S")
    case True
    then show ?thesis using B1S det by simp
  next
    case False
    then have "T < S" using that(2) by simp
    then show ?thesis using inv2 [OF that(1)] B1T [OF False] by (simp add: minor_lookup_def)
  qed
  show ?case
  proof (cases "q = 0")
    case True
    then have last: "S = [c..<n]" using props by simp
    have "table_ok xs n c B1"
      unfolding table_ok_def
    proof
      fix T assume T: "T \<in> combos n ?k"
      have "T \<le> S"
      proof (rule pointwise_le_lex)
        show "length T = length S" using T S by (simp add: combos_def)
      next
        show "\<forall>j<length T. T ! j \<le> S ! j"
        proof (intro allI impI)
          fix j assume "j < length T"
          then have j: "j < ?k" using T by (simp add: combos_def)
          then show "T ! j \<le> S ! j" using combos_upper [OF T j] c unfolding last by simp
        qed
      qed
      then show "minor_lookup B1 T = ?minor T" using upto [OF T] by simp
    qed
    then show ?thesis using unfold True det last by simp
  next
    case False
    then have q: "0 < q" by simp
    have S': "S' \<in> combos n ?k" and less': "S < S'"
      and gap: "\<And>T. T \<in> combos n ?k \<Longrightarrow> S < T \<Longrightarrow> S' \<le> T"
      using props q by blast+
    have card: "card {T \<in> combos n ?k. S' < T} < card {T \<in> combos n ?k. S < T}"
    proof (rule psubset_card_mono)
      show "finite {T \<in> combos n ?k. S < T}" using finite_combos [of n ?k] by simp
    next
      have "S' \<in> {T \<in> combos n ?k. S < T}" using S' less' by simp
      moreover have "S' \<notin> {T \<in> combos n ?k. S' < T}" by simp
      moreover have "{T \<in> combos n ?k. S' < T} \<subseteq> {T \<in> combos n ?k. S < T}"
        using less' by auto
      ultimately show "{T \<in> combos n ?k. S' < T} \<subset> {T \<in> combos n ?k. S < T}" by blast
    qed
    have i1: "T \<in> combos n ?k \<and> T < S'" if "B1 T \<noteq> None" for T
    proof (cases "T = S")
      case True
      then show ?thesis using S less' by simp
    next
      case False
      then have "B T \<noteq> None" using B1dom [OF that] by simp
      then have "T \<in> combos n ?k \<and> T < S" by (rule inv1)
      then show ?thesis using less' by auto
    qed
    have i2: "minor_lookup B1 T = ?minor T" if "T \<in> combos n ?k" "T < S'" for T
    proof -
      have "\<not> S < T" using gap [OF that(1)] that(2) by auto
      then have "T \<le> S" by simp
      then show ?thesis using upto [OF that(1)] by simp
    qed
    have "\<exists>B'. minor_keys xs n c A B1 S' = Some (?minor [c..<n], B') \<and> table_ok xs n c B'"
      using card S' i1 i2 by (rule less.hyps)
    then show ?thesis using unfold False by simp
  qed
qed

section \<open>The loop over the columns\<close>

lemma minor_columns_correct:
  fixes xs :: "'a::field list"
  assumes "table_ok xs n (Suc c) A" "Suc c < n"
  shows "minor_columns xs n (Suc c) A d = Some (minor_det 0 (map (rowf xs n) [0..<n]))"
  using assms
proof (induction c arbitrary: A d)
  case 0
  have c: "0 < n" using 0(2) by simp
  have S0: "[0..<n - 0] \<in> combos n (n - 0)" by (auto simp: combos_def sorted_wrt_iff_nth_less)
  have "\<exists>B'. minor_keys xs n 0 A Map.empty [0..<n - 0]
               = Some (minor_det 0 (map (rowf xs n) [0..<n]), B') \<and> table_ok xs n 0 B'"
  proof (rule minor_keys_correct [OF 0(1) c S0])
    fix T :: "nat list"
    assume "Map.empty T \<noteq> (None :: 'a option)"
    then show "T \<in> combos n (n - 0) \<and> T < [0..<n - 0]" by simp
  next
    fix T assume T: "T \<in> combos n (n - 0)" and lt: "T < [0..<n - 0]"
    have "[0..<n - 0] \<le> T"
    proof (rule pointwise_le_lex)
      show "length [0..<n - 0] = length T" using T by (simp add: combos_def)
    next
      show "\<forall>j<length [0..<n - 0]. [0..<n - 0] ! j \<le> T ! j"
        using combos_lower [OF T] by simp
    qed
    then show "minor_lookup Map.empty T = minor_det 0 (map (rowf xs n) T)" using lt by simp
  qed
  then show ?case by auto
next
  case (Suc c)
  let ?c = "Suc c"
  have c: "?c < n" using Suc.prems(2) by simp
  have S0: "[0..<n - ?c] \<in> combos n (n - ?c)" by (auto simp: combos_def sorted_wrt_iff_nth_less)
  have "\<exists>B'. minor_keys xs n ?c A Map.empty [0..<n - ?c]
               = Some (minor_det ?c (map (rowf xs n) [?c..<n]), B') \<and> table_ok xs n ?c B'"
  proof (rule minor_keys_correct [OF Suc.prems(1) c S0])
    fix T :: "nat list"
    assume "Map.empty T \<noteq> (None :: 'a option)"
    then show "T \<in> combos n (n - ?c) \<and> T < [0..<n - ?c]" by simp
  next
    fix T assume T: "T \<in> combos n (n - ?c)" and lt: "T < [0..<n - ?c]"
    have "[0..<n - ?c] \<le> T"
    proof (rule pointwise_le_lex)
      show "length [0..<n - ?c] = length T" using T by (simp add: combos_def)
    next
      show "\<forall>j<length [0..<n - ?c]. [0..<n - ?c] ! j \<le> T ! j"
        using combos_lower [OF T] by simp
    qed
    then show "minor_lookup Map.empty T = minor_det ?c (map (rowf xs n) T)" using lt by simp
  qed
  then obtain B' where B': "minor_keys xs n ?c A Map.empty [0..<n - ?c]
               = Some (minor_det ?c (map (rowf xs n) [?c..<n]), B')" "table_ok xs n ?c B'"
    by blast
  have "minor_columns xs n (Suc ?c) A d
        = minor_columns xs n ?c B' (minor_det ?c (map (rowf xs n) [?c..<n]))"
    using B'(1) by simp
  also have "\<dots> = Some (minor_det 0 (map (rowf xs n) [0..<n]))"
    using B'(2) c by (rule Suc.IH)
  finally show ?case .
qed

lemma initial_table:
  "fold (\<lambda>r A. minor_insert A [r] (f r)) [0..<j] Map.empty
   = (\<lambda>key. if \<exists>r<j. key = [r] then Some (f (hd key)) else None)"
proof (induction j)
  case 0
  show ?case by simp
next
  case (Suc j)
  let ?A = "\<lambda>key. if \<exists>r<j. key = [r] then Some (f (hd key)) else None"
  have "fold (\<lambda>r A. minor_insert A [r] (f r)) [0..<Suc j] Map.empty = minor_insert ?A [j] (f j)"
    by (simp add: Suc)
  also have "\<dots> = ?A([j] \<mapsto> f j)"
    by (simp add: minor_insert_def)
  also have "\<dots> = (\<lambda>key. if \<exists>r<Suc j. key = [r] then Some (f (hd key)) else None)"
    by (auto simp: fun_eq_iff less_Suc_eq)
  finally show ?case .
qed

lemma combos_1: "T \<in> combos n 1 \<Longrightarrow> \<exists>r<n. T = [r]"
  by (cases T) (auto simp: combos_def)

lemma initial_table_ok:
  fixes xs :: "'a::field list"
  assumes "0 < n"
  shows "table_ok xs n (n - 1)
           (fold (\<lambda>r A. minor_insert A [r] (xs ! (n * (r + 1) - 1))) [0..<n] Map.empty)"
  unfolding table_ok_def initial_table
proof
  fix T assume "T \<in> combos n (n - (n - 1))"
  then have "T \<in> combos n 1" using assms by simp
  then obtain r where r: "r < n" "T = [r]" using combos_1 by blast
  have "n * (r + 1) - 1 = r * n + (n - 1)" using assms by (simp add: algebra_simps)
  then show "minor_lookup (\<lambda>key. if \<exists>r<n. key = [r] then Some (xs ! (n * (hd key + 1) - 1)) else None) T
             = minor_det (n - 1) (map (rowf xs n) T)"
    using r assms by (auto simp: minor_lookup_def rowf_def)
qed

lemma determinant_minor_det_rows:
  fixes M :: "'a::field matrix"
  assumes "0 < col M"
  shows "determinant_minor M = Some (det_rows M)"
proof (cases "col M = 1 \<or> col M = 2 \<or> col M = 3")
  case True
  then show ?thesis by (rule determinant_minor_small)
next
  case False
  let ?n = "col M"
  have "4 \<le> ?n" using False assms by arith
  then have n: "Suc (?n - 2) < ?n" "?n - 1 = Suc (?n - 2)" by simp_all
  have "determinant_minor M
        = minor_columns (m M) ?n (?n - 1)
            (fold (\<lambda>r A. minor_insert A [r] (m M ! (?n * (r + 1) - 1))) [0..<?n] Map.empty) 0"
    using False by (simp add: determinant_minor_def Let_def)
  also have "\<dots> = minor_columns (m M) ?n (Suc (?n - 2))
            (fold (\<lambda>r A. minor_insert A [r] (m M ! (?n * (r + 1) - 1))) [0..<?n] Map.empty) 0"
    by (simp only: n(2))
  also have "\<dots> = Some (minor_det 0 (map (rowf (m M) ?n) [0..<?n]))"
  proof (rule minor_columns_correct)
    show "table_ok (m M) ?n (Suc (?n - 2))
            (fold (\<lambda>r A. minor_insert A [r] (m M ! (?n * (r + 1) - 1))) [0..<?n] Map.empty)"
      using initial_table_ok [OF assms, of "m M"] by (simp only: n(2))
    show "Suc (?n - 2) < ?n" by (rule n(1))
  qed
  finally show ?thesis by (simp add: det_rows_def rows_from_def)
qed

lemma determinant_laplace_det_rows:
  fixes M :: "'a::{field,abs,ord} matrix"
  assumes sq: "row M = col M" and wf: "wf_matrix M"
  shows "determinant E M Laplace = Some (Inr (det_rows M))"
proof (cases "row M = 1")
  case True
  then show ?thesis using sq
    by (simp add: determinant_def determinant_choice_def det_rows_1 normal_def expand_def Let_def
        split: prod.splits)
next
  case False
  let ?S = "laplace_sorted M (laplace_pre_sort M)"
  have "0 < col ?S" using wf by (simp add: laplace_sorted_def wf_matrix_def)
  then have "determinant_minor ?S = Some (det_rows ?S)" by (rule determinant_minor_det_rows)
  then show ?thesis
    using False sq det_rows_laplace_sorted [OF sq]
    by (simp add: determinant_def determinant_choice_def normal_def Let_def split: prod.splits)
qed

section \<open>Agreement of the determinant algorithms\<close>

text \<open>
  C1.  For a square matrix with at least one row, whose vector has \<open>row * col\<close>
  entries, the gauss algorithm, the fraction-free algorithm and the minor expansion all
  return the same determinant: the expansion \<open>det_rows\<close> of the matrix along its
  columns.  The numerator and the denominator that the collaborator yields for an
  entry are taken to represent it.
\<close>

theorem determinant_algorithms_agree:
  fixes M :: "'a::{field,abs,ord} matrix"
  assumes "row M = col M" and "wf_matrix M"
    and "\<forall>x. denom E x \<noteq> 0 \<and> numer E x / denom E x = x"
  shows "determinant E M Gauss = Some (Inr (det_rows M))
         \<and> determinant E M Bareiss = Some (Inr (det_rows M))
         \<and> determinant E M Laplace = Some (Inr (det_rows M))"
  using determinant_gauss_det_rows [OF assms(1,2), of E]
    determinant_bareiss_det_rows [OF assms]
    determinant_laplace_det_rows [OF assms(1,2), of E]
  by simp

theorem determinant_algorithms_agree_witness:
  "determinant sample_class
     \<lparr>row = 4, col = 4, m = [0, 1, 0, 2, 0, 1001, 3, 0, 4, 0, 1, 1, 1, 1, 0, 1002]\<rparr> Gauss
   = Some (Inr 9995)
   \<and> determinant sample_class
     \<lparr>row = 4, col = 4, m = [0, 1, 0, 2, 0, 1001, 3, 0, 4, 0, 1, 1, 1, 1, 0, 1002]\<rparr> Bareiss
   = Some (Inr 9995)
   \<and> determinant sample_class
     \<lparr>row = 4, col = 4, m = [0, 1, 0, 2, 0, 1001, 3, 0, 4, 0, 1, 1, 1, 1, 0, 1002]\<rparr> Laplace
   = Some (Inr 9995)"
proof -
  let ?M = "\<lparr>row = 4, col = 4, m = [0, 1, 0, 2, 0, 1001, 3, 0, 4, 0, 1, 1, 1, 1, 0, 1002 :: rat]\<rparr>"
  have sq: "row ?M = col ?M" by simp
  have wf: "wf_matrix ?M" by (simp add: wf_matrix_def)
  have nd: "\<forall>x. denom sample_class x \<noteq> 0 \<and> numer sample_class x / denom sample_class x = x"
    by (simp add: sample_class_def)
  have lap: "determinant sample_class ?M Laplace = Some (Inr 9995)"
    by code_simp
  show ?thesis
    using determinant_algorithms_agree [OF sq wf nd] lap by simp
qed

end
